theory Spec2Isabelle
  imports Complex_Main "HOL-Library.Multiset" "HOL-Library.AList"
begin

section \<open>The image pipeline of generate.py\<close>

text \<open>
  The script walks the category directories under its root. For each category it reads
  the CSV files, collects the \<open>image_url\<close> values, downloads them on a thread pool
  and tops the images directory up with augmented copies. The model below follows the
  script function by function. Everything the script takes from outside is explicit:
  \<^item> the file system is a value (directories are association lists in listing order);
  \<^item> the web is a function from URL to the response the single request gets;
  \<^item> pandas' CSV parser is a function from the text of a file to a frame or an error;
  \<^item> Python's random generator is a sequence of raw draws, threaded through the calls;
  \<^item> the thread scheduler is a second sequence of draws, which picks the worker that
    finishes next and the order in which finished futures are handed out;
  \<^item> an exception is a value of \<open>error\<close>, returned together with the world it leaves.
\<close>

subsection \<open>Configuration (lines 10-16)\<close>

record config =
  MAX_IMAGES_PER_SPECIES :: nat
  MAX_THREADS :: nat

definition source_config :: config where
  "source_config = \<lparr>MAX_IMAGES_PER_SPECIES = 1000, MAX_THREADS = 16\<rparr>"

definition IMAGE_SIZE :: "nat \<times> nat" where
  "IMAGE_SIZE = (512, 512)"

subsection \<open>Data\<close>

type_synonym url = string

text \<open>
  A source of draws: \<open>g 0\<close> is the next raw draw, \<open>skip n g\<close> the source after
  \<open>n\<close> draws were taken.
\<close>

type_synonym draws = "nat \<Rightarrow> nat"

definition skip :: "nat \<Rightarrow> draws \<Rightarrow> draws" where
  "skip n g = (\<lambda>k. g (n + k))"

datatype error = IndexError | ValueError | FileNotFoundError | EmptyDataError | ParserError

text \<open>
  Images are terms: a decoded picture and the operations applied to it. Two images are
  equal when they were made the same way, which is what provenance needs.
\<close>

datatype image =
    Picture string
  | Convert string image
  | Resize "nat \<times> nat" image
  | Transpose image
  | Rotate nat image
  | Color real image
  | Brightness real image

text \<open>
  A directory lists its entries in the order \<open>os.listdir\<close> returns them. Writing a
  file replaces the entry of that name or adds a new one.
\<close>

type_synonym 'a directory = "(string \<times> 'a) list"

text \<open>A text file is the list of its lines.\<close>

type_synonym text_file = "string list"

record species_dir =
  files :: "text_file directory"
  images :: "image directory option"

text \<open>
  The values a column can hold: a string, or a value that is no string (a number or a
  boolean, when pandas infers such a type for the column). Two values that are no
  strings carry the same tag when Python takes them for equal. A cell is a value or
  \<open>NaN\<close>, the missing value.
\<close>

datatype pyvalue = Text string | NonText nat

datatype cell = NaN | Val pyvalue

record frame =
  columns :: "string list"
  rows :: "(string \<times> cell) list list"

text \<open>
  The answer to one request: the status code, and the picture the body decodes to, if
  it is an image at all. No answer (a timeout, a refused connection) is \<open>None\<close>.
\<close>

record response =
  status_code :: nat
  content :: "image option"

text \<open>
  \<open>parse\<close> is what \<open>pd.read_csv\<close> makes of the text of a file: the frame, with
  the types it infers and the index it may take from the first field, or the exception
  it raises (an empty file, a line with too many fields).
\<close>

record env =
  web :: "url \<Rightarrow> response option"
  parse :: "text_file \<Rightarrow> error + frame"

datatype event =
    Starting
  | Processing string
  | NoCsv string
  | ColumnMissing string
  | Downloading nat string
  | Downloaded nat string
  | Augmenting string
  | Summary string nat nat nat
  | AllProcessed

record world =
  root :: "species_dir directory"
  rng :: "draws"
  sched :: "draws"
  console :: "event list"
  sent :: "pyvalue list"

text \<open>
  What the download tasks of one category work on: the images directory and the
  requests sent so far.
\<close>

record store =
  dir :: "image directory"
  requests :: "pyvalue list"

subsection \<open>Strings and file names\<close>

definition endswith :: "string \<Rightarrow> string \<Rightarrow> bool" where
  "endswith s suf = (length suf \<le> length s \<and> drop (length s - length suf) s = suf)"

definition digit_char :: "nat \<Rightarrow> char" where
  "digit_char d = ''0123456789'' ! d"

function decimal :: "nat \<Rightarrow> string" where
  "decimal n = (if n < 10 then [digit_char n] else decimal (n div 10) @ [digit_char (n mod 10)])"
  by pat_completeness auto
termination
  by (relation "measure id") auto

declare decimal.simps [simp del]

text \<open>The format \<open>{idx:04d}\<close>: decimal, padded with zeros to four characters at least.\<close>

definition fmt04d :: "nat \<Rightarrow> string" where
  "fmt04d n = replicate (4 - length (decimal n)) (CHR ''0'') @ decimal n"

definition img_name :: "string \<Rightarrow> nat \<Rightarrow> string" where
  "img_name species_name idx = ''BugLiteAI_'' @ species_name @ ''_Img'' @ fmt04d idx @ ''.jpg''"

subsection \<open>Logging and directories (lines 21-27)\<close>

definition log :: "event \<Rightarrow> world \<Rightarrow> world" where
  "log msg w = w\<lparr>console := console w @ [msg]\<rparr>"

text \<open>\<open>os.makedirs(path, exist_ok=True)\<close>: an existing directory is left as it is.\<close>

definition safe_mkdir :: "'a directory option \<Rightarrow> 'a directory" where
  "safe_mkdir d = (case d of None \<Rightarrow> [] | Some entries \<Rightarrow> entries)"

definition listdir :: "'a directory \<Rightarrow> string list" where
  "listdir d = map fst d"

definition save :: "string \<Rightarrow> 'a \<Rightarrow> 'a directory \<Rightarrow> 'a directory" where
  "save name x d = AList.update name x d"

subsection \<open>The random module\<close>

definition randbelow :: "nat \<Rightarrow> draws \<Rightarrow> nat" where
  "randbelow n g = g 0 mod n"

text \<open>\<open>random.random()\<close>: a multiple of \<open>2 ^ -53\<close> in \<open>[0, 1)\<close>.\<close>

definition random_random :: "draws \<Rightarrow> real" where
  "random_random g = real (g 0 mod 2 ^ 53) / 2 ^ 53"

definition random_uniform :: "real \<Rightarrow> real \<Rightarrow> draws \<Rightarrow> real" where
  "random_uniform a b g = a + (b - a) * random_random g"

text \<open>\<open>random.choice\<close> raises IndexError on an empty sequence.\<close>

definition random_choice :: "'a list \<Rightarrow> draws \<Rightarrow> error + 'a" where
  "random_choice xs g = (if xs = [] then Inl IndexError else Inr (xs ! randbelow (length xs) g))"

text \<open>
  \<open>random.shuffle\<close>: for \<open>i\<close> from the last index down to 1, swap \<open>x[i]\<close> with
  \<open>x[j]\<close> for a fresh \<open>j\<close> below \<open>i + 1\<close>. It takes one draw for each step.
\<close>

fun shuffle_from :: "nat \<Rightarrow> draws \<Rightarrow> 'a list \<Rightarrow> 'a list" where
  "shuffle_from 0 g x = x"
| "shuffle_from (Suc i) g x =
     (let j = randbelow (Suc i + 1) g
      in shuffle_from i (skip 1 g) (x[Suc i := x ! j, j := x ! Suc i]))"

definition random_shuffle :: "draws \<Rightarrow> 'a list \<Rightarrow> 'a list" where
  "random_shuffle g x = shuffle_from (length x - 1) g x"

subsection \<open>pandas\<close>

text \<open>
  \<open>pd.read_csv\<close> with its default arguments: the parser's frame, or its exception.
  With these arguments an empty field is a missing value, so no cell of the frame is the
  empty string; \<open>empty_as_nan\<close> holds this for whatever \<open>parse\<close> returns.
\<close>

definition empty_as_nan :: "cell \<Rightarrow> cell" where
  "empty_as_nan c = (if c = Val (Text []) then NaN else c)"

definition read_csv :: "env \<Rightarrow> text_file \<Rightarrow> error + frame" where
  "read_csv e lines =
     (case parse e lines of
        Inl err \<Rightarrow> Inl err
      | Inr df \<Rightarrow> Inr (df\<lparr>rows := map (map (\<lambda>(c, v). (c, empty_as_nan v))) (rows df)\<rparr>))"

text \<open>
  \<open>pd.concat(..., ignore_index=True)\<close>: the rows of all frames, over the union of
  their columns. A row has \<open>NaN\<close> in a column its frame does not have.
\<close>

definition pd_concat :: "frame list \<Rightarrow> frame" where
  "pd_concat dfs = \<lparr>columns = remdups (concat (map columns dfs)), rows = concat (map rows dfs)\<rparr>"

definition column :: "frame \<Rightarrow> string \<Rightarrow> cell list" where
  "column df c = map (\<lambda>r. case map_of r c of None \<Rightarrow> NaN | Some v \<Rightarrow> v) (rows df)"

fun dropna :: "cell list \<Rightarrow> pyvalue list" where
  "dropna [] = []"
| "dropna (NaN # cs) = dropna cs"
| "dropna (Val v # cs) = v # dropna cs"

text \<open>\<open>unique\<close> keeps the first occurrence of each value, in order of appearance.\<close>

definition unique :: "'a list \<Rightarrow> 'a list" where
  "unique xs = rev (remdups (rev xs))"

subsection \<open>download_image (lines 30-39)\<close>

text \<open>
  Lines 32-35: the request is sent; a missing answer, an error status
  (\<open>raise_for_status\<close>) and a body that is no image raise inside the \<open>try\<close>.
  Otherwise the picture is converted and resized. A value that is no string is no URL:
  \<open>requests.get\<close> takes its text, finds no scheme and raises, inside the \<open>try\<close> too.
\<close>

definition fetch :: "env \<Rightarrow> pyvalue \<Rightarrow> image option" where
  "fetch e v =
     (case v of
        NonText k \<Rightarrow> None
      | Text u \<Rightarrow>
          (case web e u of
             None \<Rightarrow> None
           | Some r \<Rightarrow>
               if 400 \<le> status_code r \<and> status_code r < 600 then None
               else (case content r of
                       None \<Rightarrow> None
                     | Some pic \<Rightarrow> Some (Resize IMAGE_SIZE (Convert ''RGB'' pic)))))"

text \<open>The image is saved at \<open>save_path\<close>; any exception gives \<open>False\<close>.\<close>

definition download_image :: "env \<Rightarrow> pyvalue \<Rightarrow> string \<Rightarrow> store \<Rightarrow> bool \<times> store" where
  "download_image e u save_path st =
     (let st = st\<lparr>requests := requests st @ [u]\<rparr>
      in case fetch e u of
           None \<Rightarrow> (False, st)
         | Some img \<Rightarrow> (True, st\<lparr>dir := save save_path img (dir st)\<rparr>))"

subsection \<open>augment_image (lines 42-56)\<close>

definition augment_image :: "image \<Rightarrow> draws \<Rightarrow> error + (image \<times> draws)" where
  "augment_image img g =
     (let img = (if random_random g < 0.5 then Transpose img else img);
          g = skip 1 g
      in case random_choice [0, 90, 180, 270] g of
           Inl err \<Rightarrow> Inl err
         | Inr angle \<Rightarrow>
             (let img = Rotate angle img;
                  g = skip 1 g;
                  img = Color (random_uniform 0.7 1.3 g) img;
                  g = skip 1 g;
                  img = Brightness (random_uniform 0.7 1.3 g) img;
                  g = skip 1 g
              in Inr (img, g)))"

subsection \<open>The thread pool (lines 92-100)\<close>

text \<open>
  \<open>ThreadPoolExecutor\<close> starts the submitted tasks in order, at most \<open>max_workers\<close> at
  a time. The scheduler decides which running task finishes next; the worker that
  becomes free takes the next queued task. The result is the order of completion.
  With at least one worker nothing is queued while no task runs, so the run ends when
  \<open>running\<close> is empty.
\<close>

function executor :: "draws \<Rightarrow> 'a list \<Rightarrow> 'a list \<Rightarrow> 'a list" where
  "executor s running queued =
     (if running = [] then []
      else let k = s 0 mod length running
           in running ! k #
              executor (skip 1 s) (take k running @ drop (Suc k) running @ take 1 queued) (drop 1 queued))"
  by pat_completeness auto
termination
proof (relation "measure (\<lambda>(s, running, queued). length running + length queued)")
  show "wf (measure (\<lambda>(s, running, queued). length running + length queued))"
    by simp
next
  fix s :: "draws" and running queued :: "'a list" and k
  assume "running \<noteq> []" and "k = s 0 mod length running"
  then have "k < length running"
    by simp
  then show "((skip 1 s, take k running @ drop (Suc k) running @ take 1 queued, drop 1 queued),
              (s, running, queued)) \<in> measure (\<lambda>(s, running, queued). length running + length queued)"
    by (cases queued) auto
qed

declare executor.simps [simp del]

type_synonym task = "pyvalue \<times> string"

text \<open>The tasks run one after the other in the order of completion; each leaves a future.\<close>

fun run_tasks :: "env \<Rightarrow> task list \<Rightarrow> store \<Rightarrow> (task \<times> bool) list \<times> store" where
  "run_tasks e [] st = ([], st)"
| "run_tasks e ((u, save_path) # ts) st =
     (let (r, st1) = download_image e u save_path st;
          (futures, st2) = run_tasks e ts st1
      in (((u, save_path), r) # futures, st2))"

text \<open>
  \<open>as_completed\<close> hands the futures out in an order of its own: those already finished
  in any order, the others as they finish. The model lets the scheduler permute them.
\<close>

definition as_completed :: "draws \<Rightarrow> 'a list \<Rightarrow> 'a list" where
  "as_completed s futures = shuffle_from (length futures - 1) s futures"

text \<open>
  Lines 87-102. \<open>ThreadPoolExecutor(max_workers=0)\<close> raises ValueError. The list
  \<open>downloaded\<close> holds the positions, in the order of \<open>as_completed\<close>, of the futures
  whose result is true.
\<close>

definition fetch_all ::
  "config \<Rightarrow> env \<Rightarrow> string \<Rightarrow> pyvalue list \<Rightarrow> draws \<Rightarrow> store \<Rightarrow> error + (nat list \<times> store)" where
  "fetch_all cfg e species_name urls s st =
     (if MAX_THREADS cfg = 0 then Inl ValueError
      else
        let tasks = map (\<lambda>(idx, u). (u, img_name species_name idx)) (enumerate 1 urls);
            order = executor s (take (MAX_THREADS cfg) tasks) (drop (MAX_THREADS cfg) tasks);
            (futures, st') = run_tasks e order st;
            downloaded = map fst (filter (\<lambda>(i, future). snd future)
                           (enumerate 1 (as_completed (skip (length urls) s) futures)))
        in Inr (downloaded, st'))"

subsection \<open>The candidate list (lines 83-85)\<close>

definition candidate_urls :: "config \<Rightarrow> draws \<Rightarrow> frame \<Rightarrow> pyvalue list \<times> draws" where
  "candidate_urls cfg g df =
     (let urls = unique (dropna (column df ''image_url''));
          g' = skip (length urls - 1) g;
          urls = random_shuffle g urls;
          urls = take (MAX_IMAGES_PER_SPECIES cfg) urls
      in (urls, g'))"

subsection \<open>The top-up (lines 108-128)\<close>

function augment_loop ::
  "nat \<Rightarrow> string \<Rightarrow> string list \<Rightarrow> nat \<Rightarrow> nat \<Rightarrow> image directory \<Rightarrow> draws \<Rightarrow>
     (error \<times> image directory \<times> draws) + (nat \<times> image directory \<times> draws)" where
  "augment_loop target species_name existing_images img_index augment_count imgs g =
     (if img_index \<le> target then
        (case random_choice existing_images g of
           Inl err \<Rightarrow> Inl (err, imgs, g)
         | Inr src_img_path \<Rightarrow>
             (case map_of imgs src_img_path of
                None \<Rightarrow> Inl (FileNotFoundError, imgs, skip 1 g)
              | Some img \<Rightarrow>
                  (case augment_image img (skip 1 g) of
                     Inl err \<Rightarrow> Inl (err, imgs, skip 1 g)
                   | Inr (img', g') \<Rightarrow>
                       augment_loop target species_name existing_images (img_index + 1)
                         (augment_count + 1) (save (img_name species_name img_index) img' imgs) g')))
      else Inr (augment_count, imgs, g))"
  by pat_completeness auto
termination
  by (relation "measure (\<lambda>(target, species_name, existing_images, img_index, rest). Suc target - img_index)")
     auto

declare augment_loop.simps [simp del]

definition top_up ::
  "config \<Rightarrow> string \<Rightarrow> nat \<Rightarrow> image directory \<Rightarrow> draws \<Rightarrow>
     (error \<times> image directory \<times> draws) + (nat \<times> image directory \<times> draws)" where
  "top_up cfg species_name downloaded_count imgs g =
     (let existing_images = filter (\<lambda>f. endswith f ''.jpg'') (listdir imgs);
          img_index = downloaded_count + 1
      in augment_loop (MAX_IMAGES_PER_SPECIES cfg) species_name existing_images img_index 0 imgs g)"

subsection \<open>process_species (lines 59-133)\<close>

definition species_at :: "world \<Rightarrow> string \<Rightarrow> species_dir" where
  "species_at w species_name =
     (case map_of (root w) species_name of
        None \<Rightarrow> \<lparr>files = [], images = None\<rparr>
      | Some d \<Rightarrow> d)"

definition put_images :: "string \<Rightarrow> image directory \<Rightarrow> world \<Rightarrow> world" where
  "put_images species_name imgs w =
     w\<lparr>root := save species_name ((species_at w species_name)\<lparr>images := Some imgs\<rparr>) (root w)\<rparr>"

definition images_at :: "world \<Rightarrow> string \<Rightarrow> image directory option" where
  "images_at w species_name = images (species_at w species_name)"

text \<open>Lines 67-71: the entries of the category directory whose name ends in \<open>.csv\<close>.\<close>

definition csv_files :: "species_dir \<Rightarrow> text_file directory" where
  "csv_files d = filter (\<lambda>(f, t). endswith f ''.csv'') (files d)"

text \<open>
  Line 77: the CSV files are read in order, and the frames are concatenated. The first
  file that the parser rejects raises, and nothing in the script catches it.
  \<open>pd.concat\<close> of no frame at all raises ValueError.
\<close>

fun read_each :: "env \<Rightarrow> text_file directory \<Rightarrow> error + frame list" where
  "read_each e [] = Inr []"
| "read_each e ((f, lines) # rest) =
     (case read_csv e lines of
        Inl err \<Rightarrow> Inl err
      | Inr df \<Rightarrow>
          (case read_each e rest of
             Inl err \<Rightarrow> Inl err
           | Inr dfs \<Rightarrow> Inr (df # dfs)))"

definition read_all :: "env \<Rightarrow> text_file directory \<Rightarrow> error + frame" where
  "read_all e csvs =
     (case read_each e csvs of
        Inl err \<Rightarrow> Inl err
      | Inr dfs \<Rightarrow> if dfs = [] then Inl ValueError else Inr (pd_concat dfs))"

definition process_species :: "config \<Rightarrow> env \<Rightarrow> string \<Rightarrow> world \<Rightarrow> (error \<times> world) + world" where
  "process_species cfg e species_name w0 =
     (let images_dir = safe_mkdir (images_at w0 species_name);
          w = put_images species_name images_dir w0;
          w = log (Processing species_name) w;
          csvs = csv_files (species_at w species_name)
      in if csvs = [] then Inr (log (NoCsv species_name) w)
         else
           case read_all e csvs of
             Inl err \<Rightarrow> Inl (err, w)
           | Inr df \<Rightarrow>
              if ''image_url'' \<notin> set (columns df) then Inr (log (ColumnMissing species_name) w)
              else
                let (urls, g) = candidate_urls cfg (rng w) df;
                    w = w\<lparr>rng := g\<rparr>;
                    w = log (Downloading (length urls) species_name) w
                in case fetch_all cfg e species_name urls (sched w) \<lparr>dir = images_dir, requests = sent w\<rparr> of
                     Inl err \<Rightarrow> Inl (err, w)
                   | Inr (downloaded, st) \<Rightarrow>
                       (let w = put_images species_name (dir st) w;
                            w = w\<lparr>sent := requests st, sched := skip (2 * length urls) (sched w)\<rparr>;
                            downloaded_count = length downloaded;
                            w = log (Downloaded downloaded_count species_name) w
                        in if downloaded_count < MAX_IMAGES_PER_SPECIES cfg then
                             (let w = log (Augmenting species_name) w
                              in case top_up cfg species_name downloaded_count (dir st) (rng w) of
                                   Inl (err, imgs, g) \<Rightarrow>
                                     Inl (err, (put_images species_name imgs w)\<lparr>rng := g\<rparr>)
                                 | Inr (augment_count, imgs, g) \<Rightarrow>
                                     Inr (log (Summary species_name downloaded_count augment_count
                                                 (MAX_IMAGES_PER_SPECIES cfg))
                                           ((put_images species_name imgs w)\<lparr>rng := g\<rparr>)))
                           else
                             Inr (log (Summary species_name downloaded_count 0 (MAX_IMAGES_PER_SPECIES cfg)) w)))"

subsection \<open>main (lines 136-148)\<close>

fun process_all :: "config \<Rightarrow> env \<Rightarrow> string list \<Rightarrow> world \<Rightarrow> (error \<times> world) + world" where
  "process_all cfg e [] w = Inr w"
| "process_all cfg e (species # rest) w =
     (case process_species cfg e species w of
        Inl err \<Rightarrow> Inl err
      | Inr w' \<Rightarrow> process_all cfg e rest w')"

definition main :: "config \<Rightarrow> env \<Rightarrow> world \<Rightarrow> (error \<times> world) + world" where
  "main cfg e w0 =
     (let w = log Starting w0;
          species_folders = listdir (root w)
      in case process_all cfg e species_folders w of
           Inl err \<Rightarrow> Inl err
         | Inr w' \<Rightarrow> Inr (log AllProcessed w'))"

subsection \<open>Auxiliary notions for the statements\<close>

text \<open>Reading a decimal numeral back, to tell file names apart.\<close>

definition digit_val :: "char \<Rightarrow> nat" where
  "digit_val c = of_char c - 48"

definition undecimal :: "string \<Rightarrow> nat" where
  "undecimal s = foldl (\<lambda>a c. 10 * a + digit_val c) 0 s"

text \<open>
  An image is an augmentation of \<open>src\<close> when it is \<open>src\<close>, flipped or not, then
  rotated, then adjusted in colour and brightness: what \<open>augment_image\<close> returns.
\<close>

fun is_augmentation_of :: "image \<Rightarrow> image \<Rightarrow> bool" where
  "is_augmentation_of src (Brightness b (Color c (Rotate a x))) = (x = src \<or> x = Transpose src)"
| "is_augmentation_of src img = False"

subsection \<open>Inputs for the examples\<close>

text \<open>
  The frames pandas makes of the CSV files of the examples: a single column of URLs,
  and a file with an inferred integer column and one empty field. \<open>example_parse\<close>
  gives the parser's answer on these files; its answer on any other text is not used.
\<close>

definition urls_frame :: "string list \<Rightarrow> frame" where
  "urls_frame us = \<lparr>columns = [''image_url''], rows = map (\<lambda>u. [(''image_url'', Val (Text u))]) us\<rparr>"

definition aphid_frame :: frame where
  "aphid_frame =
     \<lparr>columns = [''id'', ''image_url''],
      rows = [[(''id'', Val (NonText 1)), (''image_url'', Val (Text ''http://a''))],
              [(''id'', Val (NonText 2)), (''image_url'', Val (Text ''http://b''))],
              [(''id'', Val (NonText 3)), (''image_url'', NaN)],
              [(''id'', Val (NonText 4)), (''image_url'', Val (Text ''http://a''))]]\<rparr>"

definition example_parse :: "text_file \<Rightarrow> error + frame" where
  "example_parse lines =
     (if lines = [''image_url'', ''http://a'', ''http://b''] then Inr (urls_frame [''http://a'', ''http://b''])
      else if lines = [''image_url'', ''http://a''] then Inr (urls_frame [''http://a''])
      else if lines = [''image_url'', ''http://b''] then Inr (urls_frame [''http://b''])
      else if lines = [''id,image_url'', ''1,http://a'', ''2,http://b'', ''3,'', ''4,http://a''] then Inr aphid_frame
      else if lines = [''id'', ''7''] then Inr \<lparr>columns = [''id''], rows = [[(''id'', Val (NonText 7))]]\<rparr>
      else if lines = [''image_url'', ''http://a,http://b''] then Inl ParserError
      else Inl EmptyDataError)"

definition gap_env :: env where
  "gap_env = \<lparr>web = (\<lambda>u. if u = ''http://a'' then Some \<lparr>status_code = 200, content = Some (Picture ''a'')\<rparr> else None),
              parse = example_parse\<rparr>"

definition gap_world :: world where
  "gap_world =
     \<lparr>root = [(''Aphid'', \<lparr>files = [(''urls.csv'', [''image_url'', ''http://a'', ''http://b''])], images = None\<rparr>)],
      rng = (\<lambda>k. 0), sched = (\<lambda>k. 0), console = [], sent = []\<rparr>"

definition aphid_csv :: text_file where
  "aphid_csv = [''id,image_url'', ''1,http://a'', ''2,http://b'', ''3,'', ''4,http://a'']"

definition bare_world :: world where
  "bare_world =
     \<lparr>root = [(''Beetle'', \<lparr>files = [(''notes.txt'', [''image_url'', ''http://a''])], images = None\<rparr>),
              (''Cicada'', \<lparr>files = [(''ids.csv'', [''id'', ''7''])], images = None\<rparr>)],
      rng = (\<lambda>k. 0), sched = (\<lambda>k. 0), console = [], sent = []\<rparr>"

definition rerun_world :: world where
  "rerun_world =
     \<lparr>root = [(''Aphid'', \<lparr>files = [], images = Some [(''BugLiteAI_Aphid_Img0001.jpg'', Picture ''old'')]\<rparr>)],
      rng = (\<lambda>k. 0), sched = (\<lambda>k. 0), console = [], sent = []\<rparr>"

definition downloaded_a :: image where
  "downloaded_a = Resize (512, 512) (Convert ''RGB'' (Picture ''a''))"

definition augmented_once :: image where
  "augmented_once = Brightness (7 / 10) (Color (7 / 10) (Rotate 0 (Transpose downloaded_a)))"

definition small_config :: config where
  "small_config = \<lparr>MAX_IMAGES_PER_SPECIES = 3, MAX_THREADS = 16\<rparr>"

definition second_run_world :: world where
  "second_run_world =
     \<lparr>root = [(''Aphid'',
               \<lparr>files = [(''urls.csv'', [''image_url'', ''http://a''])],
                images = Some [(''BugLiteAI_Aphid_Img0001.jpg'', Picture ''old1''),
                               (''BugLiteAI_Aphid_Img0002.jpg'', Picture ''old2''),
                               (''BugLiteAI_Aphid_Img0003.jpg'', Picture ''old3'')]\<rparr>)],
      rng = (\<lambda>k. if k = 0 \<or> k = 5 then 1 else 0), sched = (\<lambda>k. 0), console = [], sent = []\<rparr>"

definition old2_once :: image where
  "old2_once = Brightness (7 / 10) (Color (7 / 10) (Rotate 0 (Transpose (Picture ''old2''))))"

definition old2_twice :: image where
  "old2_twice = Brightness (7 / 10) (Color (7 / 10) (Rotate 0 (Transpose old2_once)))"

definition dead_env :: env where
  "dead_env = \<lparr>web = (\<lambda>u. None), parse = example_parse\<rparr>"

definition starved_world :: world where
  "starved_world =
     \<lparr>root = [(''Aphid'', \<lparr>files = [(''urls.csv'', [''image_url'', ''http://a''])], images = None\<rparr>),
              (''Beetle'', \<lparr>files = [(''urls.csv'', [''image_url'', ''http://b''])], images = None\<rparr>)],
      rng = (\<lambda>k. 0), sched = (\<lambda>k. 0), console = [], sent = []\<rparr>"

definition broken_world :: world where
  "broken_world =
     \<lparr>root = [(''Aphid'', \<lparr>files = [(''urls.csv'', [''image_url'', ''http://a,http://b''])], images = None\<rparr>)],
      rng = (\<lambda>k. 0), sched = (\<lambda>k. 0), console = [], sent = []\<rparr>"

section \<open>File names and shuffling\<close>

lemma digit_val_digit_char: "d < 10 \<Longrightarrow> digit_val (digit_char d) = d"
proof -
  have "list_all (\<lambda>d. digit_val (digit_char d) = d) [0..<10]"
    by code_simp
  moreover assume "d < 10"
  ultimately show ?thesis
    by (simp add: list_all_iff)
qed

lemma undecimal_decimal: "undecimal (decimal n) = n"
proof (induction n rule: decimal.induct)
  case (1 n)
  show ?case
  proof (cases "n < 10")
    case True
    then show ?thesis
      by (subst decimal.simps) (simp add: undecimal_def digit_val_digit_char)
  next
    case False
    then have "undecimal (decimal (n div 10)) = n div 10"
      using 1 by simp
    then show ?thesis
      using False
      by (subst decimal.simps) (simp add: undecimal_def digit_val_digit_char)
  qed
qed

lemma undecimal_zeros: "undecimal (replicate k (CHR ''0'') @ s) = undecimal s"
proof -
  have "foldl (\<lambda>a c. 10 * a + digit_val c) 0 (replicate k (CHR ''0'')) = 0"
    by (induction k) (simp_all add: digit_val_def)
  then show ?thesis
    by (simp add: undecimal_def)
qed

lemma undecimal_fmt04d: "undecimal (fmt04d n) = n"
  by (simp add: fmt04d_def undecimal_zeros undecimal_decimal)

lemma fmt04d_inj: "fmt04d a = fmt04d b \<Longrightarrow> a = b"
  by (metis undecimal_fmt04d)

lemma img_name_eq_iff: "img_name sp a = img_name sp b \<longleftrightarrow> a = b"
  by (auto simp: img_name_def dest: fmt04d_inj)

lemma img_name_inj: "inj (img_name sp)"
  by (simp add: inj_def img_name_eq_iff)

lemma endswith_append: "endswith (s @ suf) suf"
  by (simp add: endswith_def)

lemma img_name_jpg: "endswith (img_name sp k) ''.jpg''"
proof -
  have "img_name sp k = (''BugLiteAI_'' @ sp @ ''_Img'' @ fmt04d k) @ ''.jpg''"
    by (simp add: img_name_def)
  then show ?thesis
    by (simp only: endswith_append)
qed

lemma mset_shuffle_from: "i < length x \<Longrightarrow> mset (shuffle_from i g x) = mset x"
proof (induction i arbitrary: g x)
  case 0
  then show ?case by simp
next
  case (Suc i)
  let ?j = "randbelow (Suc i + 1) g"
  have j: "?j < length x"
    using Suc.prems by (simp add: randbelow_def) (meson less_Suc_eq_le less_le_trans mod_less_divisor not_less zero_less_Suc)
  have "mset (x[Suc i := x ! ?j, ?j := x ! Suc i]) = mset x"
    using mset_swap [OF j Suc.prems] .
  moreover have "i < length (x[Suc i := x ! ?j, ?j := x ! Suc i])"
    using Suc.prems by simp
  ultimately show ?case
    using Suc.IH [of "x[Suc i := x ! ?j, ?j := x ! Suc i]" "skip 1 g"] by (simp add: Let_def)
qed

lemma mset_random_shuffle: "mset (random_shuffle g x) = mset x"
  by (cases x) (simp_all add: random_shuffle_def mset_shuffle_from)

lemma mset_as_completed: "mset (as_completed s fs) = mset fs"
  by (cases fs) (simp_all add: as_completed_def mset_shuffle_from)

lemma distinct_unique: "distinct (unique xs)"
  by (simp add: unique_def)

lemma set_unique: "set (unique xs) = set xs"
  by (simp add: unique_def)

lemma set_dropna: "set (dropna cs) = {v. Val v \<in> set cs}"
  by (induction cs rule: dropna.induct) auto

lemma read_csv_no_empty:
  assumes "read_csv e lines = Inr df" and "r \<in> set (rows df)"
  shows "(c, Val (Text [])) \<notin> set r"
proof -
  from assms(1) obtain df0 where df: "df = df0\<lparr>rows := map (map (\<lambda>(c, v). (c, empty_as_nan v))) (rows df0)\<rparr>"
    by (auto simp: read_csv_def split: sum.splits)
  with assms(2) obtain r0 where "r = map (\<lambda>(c, v). (c, empty_as_nan v)) r0"
    by auto
  then show ?thesis
    by (auto simp: empty_as_nan_def split: if_splits)
qed

lemma read_each_no_empty:
  "read_each e csvs = Inr dfs \<Longrightarrow> df \<in> set dfs \<Longrightarrow> r \<in> set (rows df) \<Longrightarrow> (c, Val (Text [])) \<notin> set r"
proof (induction csvs arbitrary: dfs)
  case Nil
  then show ?case by simp
next
  case (Cons entry csvs)
  obtain f lines where entry: "entry = (f, lines)"
    by (cases entry)
  from Cons.prems(1) obtain d ds where d: "read_csv e lines = Inr d" and ds: "read_each e csvs = Inr ds"
    and dfs: "dfs = d # ds"
    by (auto simp: entry split: sum.splits)
  show ?case
  proof (cases "df = d")
    case True
    with d Cons.prems(3) show ?thesis
      by (simp add: read_csv_no_empty)
  next
    case False
    with Cons.prems(2) dfs have "df \<in> set ds"
      by simp
    with ds show ?thesis
      using Cons.prems(3) by (rule Cons.IH)
  qed
qed

lemma column_read_all:
  assumes "read_all e csvs = Inr df"
  shows "Val (Text []) \<notin> set (column df c)"
proof -
  from assms obtain dfs where dfs: "read_each e csvs = Inr dfs" and df: "df = pd_concat dfs"
    by (auto simp: read_all_def split: sum.splits if_splits)
  have "\<And>r. r \<in> set (rows df) \<Longrightarrow> map_of r c \<noteq> Some (Val (Text []))"
  proof
    fix r
    assume "r \<in> set (rows df)" and "map_of r c = Some (Val (Text []))"
    from this(1) obtain d where "d \<in> set dfs" "r \<in> set (rows d)"
      by (auto simp: df pd_concat_def)
    with dfs have "(c, Val (Text [])) \<notin> set r"
      by (rule read_each_no_empty)
    moreover from \<open>map_of r c = Some (Val (Text []))\<close> have "(c, Val (Text [])) \<in> set r"
      by (rule map_of_SomeD)
    ultimately show False
      by simp
  qed
  then show ?thesis
    by (auto simp: column_def split: option.splits)
qed

section \<open>The thread pool and the downloads\<close>

lemma executor_mset:
  "(running = [] \<longrightarrow> queued = []) \<Longrightarrow> mset (executor s running queued) = mset running + mset queued"
proof (induction s running queued rule: executor.induct)
  case (1 s running queued)
  show ?case
  proof (cases "running = []")
    case True
    with 1 show ?thesis
      by (simp add: executor.simps)
  next
    case False
    define k where "k = s 0 mod length running"
    define running' where "running' = take k running @ drop (Suc k) running @ take 1 queued"
    have k: "k < length running"
      using False by (simp add: k_def)
    have "running' = [] \<longrightarrow> drop 1 queued = []"
      by (cases queued) (simp_all add: running'_def)
    then have "mset (executor (skip 1 s) running' (drop 1 queued)) = mset running' + mset (drop 1 queued)"
      using "1.IH" [OF False k_def] by (simp add: running'_def)
    moreover have "mset running = add_mset (running ! k) (mset (take k running @ drop (Suc k) running))"
      using k by (metis Cons_nth_drop_Suc append_take_drop_id mset.simps(2) mset_append union_mset_add_mset_right)
    moreover have "mset (take 1 queued) + mset (drop 1 queued) = mset queued"
      by (metis append_take_drop_id mset_append)
    ultimately have "add_mset (running ! k) (mset (executor (skip 1 s) running' (drop 1 queued))) = mset running + mset queued"
      by (simp add: running'_def ac_simps)
    then show ?thesis
      using False by (subst executor.simps) (simp add: Let_def k_def running'_def)
  qed
qed

lemma executor_pool_mset:
  "0 < w \<Longrightarrow> mset (executor s (take w ts) (drop w ts)) = mset ts"
proof -
  assume "0 < w"
  then have "take w ts = [] \<longrightarrow> drop w ts = []"
    by (cases ts) simp_all
  then have "mset (executor s (take w ts) (drop w ts)) = mset (take w ts) + mset (drop w ts)"
    by (rule executor_mset)
  then show ?thesis
    by (metis append_take_drop_id mset_append)
qed

lemma fst_download_image: "fst (download_image e u p st) = (fetch e u \<noteq> None)"
  by (simp add: download_image_def Let_def split: option.splits)

lemma requests_download_image: "requests (snd (download_image e u p st)) = requests st @ [u]"
  by (simp add: download_image_def Let_def split: option.splits)

lemma dir_download_image:
  "dir (snd (download_image e u p st)) = (case fetch e u of None \<Rightarrow> dir st | Some img \<Rightarrow> save p img (dir st))"
  by (simp add: download_image_def Let_def split: option.splits)

lemma futures_run_tasks: "fst (run_tasks e ts st) = map (\<lambda>t. (t, fetch e (fst t) \<noteq> None)) ts"
proof (induction ts arbitrary: st)
  case Nil
  show ?case by simp
next
  case (Cons t ts)
  obtain u p where t: "t = (u, p)"
    by (cases t)
  show ?case
    using Cons.IH [of "snd (download_image e u p st)"] fst_download_image [of e u p st]
    by (simp add: t split_beta Let_def)
qed

lemma requests_run_tasks: "requests (snd (run_tasks e ts st)) = requests st @ map fst ts"
proof (induction ts arbitrary: st)
  case Nil
  show ?case by simp
next
  case (Cons t ts)
  obtain u p where t: "t = (u, p)"
    by (cases t)
  show ?case
    using Cons.IH [of "snd (download_image e u p st)"]
    by (simp add: t split_beta Let_def requests_download_image)
qed

lemma map_of_save: "map_of (save p x d) = (map_of d)(p \<mapsto> x)"
  by (simp add: save_def update_conv')

lemma dir_run_tasks_other:
  "p \<notin> snd ` set ts \<Longrightarrow> map_of (dir (snd (run_tasks e ts st))) p = map_of (dir st) p"
proof (induction ts arbitrary: st)
  case Nil
  show ?case by simp
next
  case (Cons t ts)
  obtain u q where t: "t = (u, q)"
    by (cases t)
  have "q \<noteq> p" and "p \<notin> snd ` set ts"
    using Cons.prems by (auto simp: t)
  then show ?case
    using Cons.IH [of "snd (download_image e u q st)"]
    by (simp add: t split_beta Let_def dir_download_image map_of_save split: option.splits)
qed

lemma dir_run_tasks_task:
  "distinct (map snd ts) \<Longrightarrow> (u, p) \<in> set ts \<Longrightarrow>
   map_of (dir (snd (run_tasks e ts st))) p =
     (case fetch e u of None \<Rightarrow> map_of (dir st) p | Some img \<Rightarrow> Some img)"
proof (induction ts arbitrary: st)
  case Nil
  then show ?case by simp
next
  case (Cons t ts)
  obtain v q where t: "t = (v, q)"
    by (cases t)
  let ?st1 = "snd (download_image e v q st)"
  have run: "snd (run_tasks e (t # ts) st) = snd (run_tasks e ts ?st1)"
    by (simp add: t split_beta Let_def)
  show ?case
  proof (cases "(u, p) = (v, q)")
    case True
    then have "p \<notin> snd ` set ts"
      using Cons.prems(1) by (auto simp: t)
    then have "map_of (dir (snd (run_tasks e ts ?st1))) p = map_of (dir ?st1) p"
      by (rule dir_run_tasks_other)
    then show ?thesis
      using True by (simp add: run dir_download_image map_of_save split: option.splits)
  next
    case False
    then have in_ts: "(u, p) \<in> set ts"
      using Cons.prems(2) by (auto simp: t)
    then have "q \<noteq> p"
      using Cons.prems(1) by (force simp: t)
    then have "map_of (dir ?st1) p = map_of (dir st) p"
      by (simp add: dir_download_image map_of_save split: option.splits)
    moreover have "distinct (map snd ts)"
      using Cons.prems(1) by simp
    then have "map_of (dir (snd (run_tasks e ts ?st1))) p =
        (case fetch e u of None \<Rightarrow> map_of (dir ?st1) p | Some img \<Rightarrow> Some img)"
      using in_ts by (rule Cons.IH)
    ultimately show ?thesis
      by (simp only: run)
  qed
qed

section \<open>The fetch batch\<close>

lemma length_filter_enumerate:
  "length (filter (\<lambda>(i, f). P f) (enumerate n ys)) = length (filter P ys)"
  by (induction ys arbitrary: n) simp_all

lemma length_filter_mset_eq:
  "mset xs = mset ys \<Longrightarrow> length (filter P xs) = length (filter P ys)"
  by (metis mset_filter size_mset)

lemma tasks_urls:
  "map fst (map (\<lambda>(idx, u). (u, img_name sp idx)) (enumerate 1 urls)) = urls"
proof -
  have "fst \<circ> (\<lambda>(idx, u). (u, img_name sp idx)) = snd"
    by (auto simp: fun_eq_iff)
  from arg_cong [OF this, of "\<lambda>f. map f (enumerate 1 urls)"] have "map fst (map (\<lambda>(idx, u). (u, img_name sp idx)) (enumerate 1 urls)) = map snd (enumerate 1 urls)"
    by (simp only: map_map)
  then show ?thesis
    by (simp only: map_snd_enumerate)
qed

lemma tasks_paths:
  "map snd (map (\<lambda>(idx, u). (u, img_name sp idx)) (enumerate 1 urls)) =
     map (img_name sp) [1..<1 + length urls]"
proof -
  have "snd \<circ> (\<lambda>(idx, u). (u, img_name sp idx)) = img_name sp \<circ> fst"
    by (auto simp: fun_eq_iff)
  from arg_cong [OF this, of "\<lambda>f. map f (enumerate 1 urls)"] have "map snd (map (\<lambda>(idx, u). (u, img_name sp idx)) (enumerate 1 urls)) =
      map (img_name sp) (map fst (enumerate 1 urls))"
    by (simp only: map_map)
  then show ?thesis
    by (simp only: map_fst_enumerate)
qed

lemma tasks_distinct:
  "distinct (map snd (map (\<lambda>(idx, u). (u, img_name sp idx)) (enumerate 1 urls)))"
  unfolding tasks_paths by (simp add: distinct_map img_name_inj inj_on_def img_name_eq_iff)

lemma tasks_nth:
  "i < length urls \<Longrightarrow>
   (urls ! i, img_name sp (Suc i)) \<in> set (map (\<lambda>(idx, u). (u, img_name sp idx)) (enumerate 1 urls))"
proof -
  assume i: "i < length urls"
  then have "enumerate 1 urls ! i = (Suc i, urls ! i)"
    by (simp add: nth_enumerate_eq)
  moreover have "enumerate 1 urls ! i \<in> set (enumerate 1 urls)"
    using i by (simp del: in_set_enumerate_eq)
  ultimately have "(Suc i, urls ! i) \<in> set (enumerate 1 urls)"
    by simp
  then show ?thesis
    by (force simp del: in_set_enumerate_eq)
qed

lemma fetch_all_Inr:
  assumes w: "0 < MAX_THREADS cfg"
  shows "\<exists>downloaded st'.
    fetch_all cfg e sp urls s st = Inr (downloaded, st') \<and>
    length downloaded = length (filter (\<lambda>u. fetch e u \<noteq> None) urls) \<and>
    (\<forall>i<length urls. map_of (dir st') (img_name sp (Suc i)) =
        (case fetch e (urls ! i) of None \<Rightarrow> map_of (dir st) (img_name sp (Suc i)) | Some img \<Rightarrow> Some img)) \<and>
    (\<forall>p. p \<notin> img_name sp ` {1..length urls} \<longrightarrow> map_of (dir st') p = map_of (dir st) p) \<and>
    mset (requests st') = mset (requests st) + mset urls"
proof -
  define tasks where "tasks = map (\<lambda>(idx, u). (u, img_name sp idx)) (enumerate 1 urls)"
  define order where "order = executor s (take (MAX_THREADS cfg) tasks) (drop (MAX_THREADS cfg) tasks)"
  define futures where "futures = fst (run_tasks e order st)"
  define st' where "st' = snd (run_tasks e order st)"
  define downloaded where "downloaded = map fst (filter (\<lambda>(i, future). snd future)
                           (enumerate 1 (as_completed (skip (length urls) s) futures)))"
  have res: "fetch_all cfg e sp urls s st = Inr (downloaded, st')"
    using w by (simp add: fetch_all_def Let_def split_beta tasks_def order_def futures_def st'_def downloaded_def)
  have order: "mset order = mset tasks"
    unfolding order_def using w by (rule executor_pool_mset)
  have set_order: "set order = set tasks"
    using order by (rule mset_eq_setD)
  have "mset (map snd order) = mset (map snd tasks)"
    using order by (metis mset_map)
  then have dist: "distinct (map snd order)"
    using tasks_distinct [of sp urls] by (metis tasks_def mset_eq_imp_distinct_iff)
  have futures: "futures = map (\<lambda>t. (t, fetch e (fst t) \<noteq> None)) order"
    by (simp add: futures_def futures_run_tasks)
  have "length downloaded = length (filter snd (as_completed (skip (length urls) s) futures))"
    by (simp add: downloaded_def length_filter_enumerate)
  also have "\<dots> = length (filter snd futures)"
    by (rule length_filter_mset_eq) (rule mset_as_completed)
  also have "\<dots> = length (filter (\<lambda>t. fetch e (fst t) \<noteq> None) order)"
    by (simp add: futures filter_map o_def)
  also have "\<dots> = length (filter (\<lambda>t. fetch e (fst t) \<noteq> None) tasks)"
    using order by (rule length_filter_mset_eq)
  also have "\<dots> = length (filter (\<lambda>u. fetch e u \<noteq> None) (map fst tasks))"
    by (simp add: filter_map o_def)
  also have "\<dots> = length (filter (\<lambda>u. fetch e u \<noteq> None) urls)"
    by (simp only: tasks_def tasks_urls)
  finally have count: "length downloaded = length (filter (\<lambda>u. fetch e u \<noteq> None) urls)" .
  have written: "\<forall>i<length urls. map_of (dir st') (img_name sp (Suc i)) =
        (case fetch e (urls ! i) of None \<Rightarrow> map_of (dir st) (img_name sp (Suc i)) | Some img \<Rightarrow> Some img)"
  proof (intro allI impI)
    fix i
    assume "i < length urls"
    then have "(urls ! i, img_name sp (Suc i)) \<in> set order"
      unfolding set_order tasks_def by (rule tasks_nth)
    with dist show "map_of (dir st') (img_name sp (Suc i)) =
        (case fetch e (urls ! i) of None \<Rightarrow> map_of (dir st) (img_name sp (Suc i)) | Some img \<Rightarrow> Some img)"
      unfolding st'_def by (rule dir_run_tasks_task)
  qed
  have other: "\<forall>p. p \<notin> img_name sp ` {1..length urls} \<longrightarrow> map_of (dir st') p = map_of (dir st) p"
  proof (intro allI impI)
    fix p
    assume "p \<notin> img_name sp ` {1..length urls}"
    moreover have "snd ` set order = img_name sp ` {1..length urls}"
    proof -
      have "snd ` set order = set (map snd tasks)"
        by (simp add: set_order)
      also have "\<dots> = img_name sp ` set [1..<1 + length urls]"
        unfolding tasks_def tasks_paths by simp
      also have "\<dots> = img_name sp ` {1..length urls}"
      proof -
        have "set [1..<1 + length urls] = {1..length urls}"
          by auto
        then show ?thesis
          by simp
      qed
      finally show ?thesis .
    qed
    ultimately have "p \<notin> snd ` set order"
      by simp
    then show "map_of (dir st') p = map_of (dir st) p"
      unfolding st'_def by (rule dir_run_tasks_other)
  qed
  have "mset (map fst order) = mset (map fst tasks)"
    using order by (metis mset_map)
  then have "mset (map fst order) = mset urls"
    by (simp only: tasks_def tasks_urls)
  then have reqs: "mset (requests st') = mset (requests st) + mset urls"
    by (simp add: st'_def requests_run_tasks)
  show ?thesis
    using res count written other reqs by blast
qed

section \<open>The augmentation loop\<close>

lemma skip_four: "skip 1 (skip 1 (skip 1 (skip 1 g))) = skip 4 g"
  by (simp add: skip_def fun_eq_iff eval_nat_numeral)

lemma augment_image_Inr:
  "\<exists>img'. augment_image img g = Inr (img', skip 4 g) \<and> is_augmentation_of img img'"
  unfolding augment_image_def random_choice_def Let_def skip_four by simp

lemma augment_image_InrD:
  "augment_image img g = Inr (img', g') \<Longrightarrow> is_augmentation_of img img'"
  using augment_image_Inr [of img g] by auto

lemma random_choice_Inr:
  "xs \<noteq> [] \<Longrightarrow> \<exists>x\<in>set xs. random_choice xs g = Inr x"
  by (simp add: random_choice_def randbelow_def)

lemma random_choice_InrD:
  "random_choice xs g = Inr x \<Longrightarrow> x \<in> set xs"
  by (auto simp: random_choice_def randbelow_def split: if_splits)

lemma keys_save: "fst ` set (save p x d) = insert p (fst ` set d)"
  by (simp add: save_def dom_update)

lemma augment_loop_fails:
  "img_index \<le> target \<Longrightarrow> augment_loop target sp [] img_index c imgs g = Inl (IndexError, imgs, g)"
  by (subst augment_loop.simps) (simp add: random_choice_def)

lemma augment_loop_done:
  "target < img_index \<Longrightarrow> augment_loop target sp existing img_index c imgs g = Inr (c, imgs, g)"
  by (subst augment_loop.simps) simp

lemma augment_loop_step:
  assumes "augment_loop target sp existing i c imgs g = Inr (c', imgs', g')" and "i \<le> target"
  obtains path img img1 g1 where
    "random_choice existing g = Inr path" and
    "map_of imgs path = Some img" and
    "augment_image img (skip 1 g) = Inr (img1, g1)" and
    "augment_loop target sp existing (i + 1) (c + 1) (save (img_name sp i) img1 imgs) g1 = Inr (c', imgs', g')"
  using assms by (subst (asm) augment_loop.simps) (auto split: sum.splits option.splits)

lemma augment_loop_succeeds:
  assumes "existing \<noteq> []"
  shows "set existing \<subseteq> fst ` set imgs \<Longrightarrow>
    \<exists>imgs' g'. augment_loop target sp existing i c imgs g = Inr (c + (Suc target - i), imgs', g')"
proof (induction "Suc target - i" arbitrary: i c imgs g)
  case 0
  then have "target < i"
    by simp
  then show ?case
    by (simp add: augment_loop_done)
next
  case (Suc n)
  then have i: "i \<le> target"
    by simp
  obtain path where path: "path \<in> set existing" "random_choice existing g = Inr path"
    using random_choice_Inr [OF assms] by blast
  then have "path \<in> fst ` set imgs"
    using Suc.prems by blast
  then have "map_of imgs path \<noteq> None"
    by (simp add: map_of_eq_None_iff)
  then obtain img where img: "map_of imgs path = Some img"
    by blast
  obtain img' where img': "augment_image img (skip 1 g) = Inr (img', skip 4 (skip 1 g))"
    using augment_image_Inr by blast
  define imgs1 where "imgs1 = save (img_name sp i) img' imgs"
  have step: "augment_loop target sp existing i c imgs g =
      augment_loop target sp existing (i + 1) (c + 1) imgs1 (skip 4 (skip 1 g))"
    using i path(2) img img' by (subst augment_loop.simps) (simp add: imgs1_def)
  have n: "n = Suc target - (i + 1)"
    using Suc.hyps(2) by simp
  have "set existing \<subseteq> fst ` set imgs1"
    using Suc.prems by (auto simp: imgs1_def keys_save)
  from Suc.hyps(1) [OF n this, of "c + 1" "skip 4 (skip 1 g)"]
  obtain imgs' g' where
    "augment_loop target sp existing (i + 1) (c + 1) imgs1 (skip 4 (skip 1 g)) =
       Inr (c + 1 + (Suc target - (i + 1)), imgs', g')"
    by blast
  moreover have "c + 1 + (Suc target - (i + 1)) = c + (Suc target - i)"
    using i by simp
  ultimately show ?case
    using step by simp
qed

lemma augment_loop_keys:
  "augment_loop target sp existing i c imgs g = Inr (c', imgs', g') \<Longrightarrow>
   fst ` set imgs' = fst ` set imgs \<union> img_name sp ` {i..target}"
proof (induction "Suc target - i" arbitrary: i c imgs g)
  case 0
  then have "target < i"
    by simp
  with 0 show ?case
    by (simp add: augment_loop_done)
next
  case (Suc n)
  then have i: "i \<le> target"
    by simp
  have n: "n = Suc target - (i + 1)"
    using Suc.hyps(2) by simp
  from Suc.prems i obtain img1 g1 where
    "augment_loop target sp existing (i + 1) (c + 1) (save (img_name sp i) img1 imgs) g1 = Inr (c', imgs', g')"
    by (rule augment_loop_step)
  then have "fst ` set imgs' = fst ` set (save (img_name sp i) img1 imgs) \<union> img_name sp ` {i + 1..target}"
    using n by (rule Suc.hyps(1) [rotated])
  moreover have "{i..target} = insert i {i + 1..target}"
    using i by auto
  ultimately show ?case
    by (simp add: keys_save)
qed

lemma augment_loop_other:
  "augment_loop target sp existing i c imgs g = Inr (c', imgs', g') \<Longrightarrow>
   p \<notin> img_name sp ` {i..target} \<Longrightarrow> map_of imgs' p = map_of imgs p"
proof (induction "Suc target - i" arbitrary: i c imgs g)
  case 0
  then have "target < i"
    by simp
  with 0 show ?case
    by (simp add: augment_loop_done)
next
  case (Suc n)
  then have i: "i \<le> target"
    by simp
  have n: "n = Suc target - (i + 1)"
    using Suc.hyps(2) by simp
  have range: "{i..target} = insert i {i + 1..target}"
    using i by auto
  then have p: "p \<noteq> img_name sp i" "p \<notin> img_name sp ` {i + 1..target}"
    using Suc.prems(2) by auto
  from Suc.prems(1) i obtain img1 g1 where
    "augment_loop target sp existing (i + 1) (c + 1) (save (img_name sp i) img1 imgs) g1 = Inr (c', imgs', g')"
    by (rule augment_loop_step)
  from Suc.hyps(1) [OF n this p(2)] show ?case
    using p(1) by (simp add: map_of_save)
qed

lemma augment_loop_sources:
  "augment_loop target sp existing i c imgs g = Inr (c', imgs', g') \<Longrightarrow> k \<in> {i..target} \<Longrightarrow>
   \<exists>p\<in>set existing. \<exists>src aug.
      map_of imgs' (img_name sp k) = Some aug \<and> is_augmentation_of src aug \<and>
      (if p \<in> img_name sp ` {i..<k} then map_of imgs' p else map_of imgs p) = Some src"
proof (induction "Suc target - i" arbitrary: i c imgs g)
  case 0
  then show ?case
    by simp
next
  case (Suc n)
  then have i: "i \<le> target"
    by simp
  have n: "n = Suc target - (i + 1)"
    using Suc.hyps(2) by simp
  from Suc.prems(1) i obtain path img img1 g1 where
    path: "random_choice existing g = Inr path" and
    img: "map_of imgs path = Some img" and
    img1: "augment_image img (skip 1 g) = Inr (img1, g1)" and
    rest: "augment_loop target sp existing (i + 1) (c + 1) (save (img_name sp i) img1 imgs) g1 = Inr (c', imgs', g')"
    by (rule augment_loop_step)
  have "img_name sp i \<notin> img_name sp ` {i + 1..target}"
    by (auto simp: img_name_eq_iff)
  with rest have "map_of imgs' (img_name sp i) = map_of (save (img_name sp i) img1 imgs) (img_name sp i)"
    by (rule augment_loop_other)
  then have at_i: "map_of imgs' (img_name sp i) = Some img1"
    by (simp add: map_of_save)
  show ?case
  proof (cases "k = i")
    case True
    have "path \<in> set existing"
      using path by (rule random_choice_InrD)
    moreover have "is_augmentation_of img img1"
      using img1 by (rule augment_image_InrD)
    ultimately show ?thesis
      using True at_i img by auto
  next
    case False
    then have k: "k \<in> {i + 1..target}"
      using Suc.prems(2) by simp
    from Suc.hyps(1) [OF n rest k] obtain p src aug where
      p: "p \<in> set existing" and
      aug: "map_of imgs' (img_name sp k) = Some aug" "is_augmentation_of src aug" and
      src: "(if p \<in> img_name sp ` {i + 1..<k} then map_of imgs' p
             else map_of (save (img_name sp i) img1 imgs) p) = Some src"
      by blast
    have split: "{i..<k} = insert i {i + 1..<k}"
      using k by auto
    have "(if p \<in> img_name sp ` {i..<k} then map_of imgs' p else map_of imgs p) = Some src"
    proof (cases "p \<in> img_name sp ` {i + 1..<k}")
      case True
      then show ?thesis
        using src by (simp add: split)
    next
      case False
      show ?thesis
      proof (cases "p = img_name sp i")
        case True
        then show ?thesis
          using src False at_i by (simp add: split map_of_save)
      next
        case False
        then show ?thesis
          using src \<open>p \<notin> img_name sp ` {i + 1..<k}\<close> by (simp add: split map_of_save)
      qed
    qed
    then show ?thesis
      using p aug by blast
  qed
qed

section \<open>process_species, case by case\<close>

lemma species_at_put_images:
  "species_at (put_images sp imgs w) sp = (species_at w sp)\<lparr>images := Some imgs\<rparr>"
  by (simp add: species_at_def put_images_def map_of_save)

lemma species_at_log: "species_at (log msg w) sp = species_at w sp"
  by (simp add: species_at_def log_def)

lemma images_at_put_images: "images_at (put_images sp imgs w) sp = Some imgs"
  by (simp add: images_at_def species_at_put_images)

lemma images_at_log: "images_at (log msg w) sp = images_at w sp"
  by (simp add: images_at_def species_at_log)

lemma images_at_rng:
  "images_at (w\<lparr>rng := g\<rparr>) sp = images_at w sp"
  "images_at (w\<lparr>sched := s\<rparr>) sp = images_at w sp"
  "images_at (w\<lparr>sent := r\<rparr>) sp = images_at w sp"
  by (simp_all add: images_at_def species_at_def)

lemma put_images_fields:
  "rng (put_images sp imgs w) = rng w"
  "sched (put_images sp imgs w) = sched w"
  "console (put_images sp imgs w) = console w"
  "sent (put_images sp imgs w) = sent w"
  by (simp_all add: put_images_def)

lemma log_fields:
  "rng (log msg w) = rng w"
  "sched (log msg w) = sched w"
  "console (log msg w) = console w @ [msg]"
  "sent (log msg w) = sent w"
  by (simp_all add: log_def)

lemma process_species_no_csv:
  assumes "csv_files (species_at w sp) = []"
  shows "process_species cfg e sp w =
    Inr (log (NoCsv sp) (log (Processing sp) (put_images sp (safe_mkdir (images_at w sp)) w)))"
  using assms
  by (simp add: process_species_def Let_def species_at_log species_at_put_images csv_files_def)

lemma process_species_unread:
  assumes "csv_files (species_at w sp) \<noteq> []"
    and "read_all e (csv_files (species_at w sp)) = Inl err"
  shows "process_species cfg e sp w =
    Inl (err, log (Processing sp) (put_images sp (safe_mkdir (images_at w sp)) w))"
  using assms
  by (simp add: process_species_def Let_def species_at_log species_at_put_images csv_files_def)

lemma process_species_no_column:
  assumes "csv_files (species_at w sp) \<noteq> []"
    and "read_all e (csv_files (species_at w sp)) = Inr df"
    and "''image_url'' \<notin> set (columns df)"
  shows "process_species cfg e sp w =
    Inr (log (ColumnMissing sp) (log (Processing sp) (put_images sp (safe_mkdir (images_at w sp)) w)))"
  using assms
  by (simp add: process_species_def Let_def species_at_log species_at_put_images csv_files_def)

lemma process_species_skip:
  assumes "csv_files (species_at w sp) = [] \<or>
           (\<exists>df. read_all e (csv_files (species_at w sp)) = Inr df \<and> ''image_url'' \<notin> set (columns df))"
  shows "process_species cfg e sp w =
    Inr (log (if csv_files (species_at w sp) = [] then NoCsv sp else ColumnMissing sp)
          (log (Processing sp) (put_images sp (safe_mkdir (images_at w sp)) w)))"
proof (cases "csv_files (species_at w sp) = []")
  case True
  then show ?thesis
    by (simp add: process_species_no_csv)
next
  case False
  with assms obtain df where "read_all e (csv_files (species_at w sp)) = Inr df"
    and "''image_url'' \<notin> set (columns df)"
    by blast
  with False show ?thesis
    by (simp add: process_species_no_column)
qed

lemma process_species_fetch:
  assumes csvs: "csv_files (species_at w sp) \<noteq> []"
    and read: "read_all e (csv_files (species_at w sp)) = Inr df"
    and col: "''image_url'' \<in> set (columns df)"
    and cand: "candidate_urls cfg (rng w) df = (urls, g)"
    and w1: "w1 = log (Downloading (length urls) sp)
                   ((log (Processing sp) (put_images sp (safe_mkdir (images_at w sp)) w))\<lparr>rng := g\<rparr>)"
  shows "process_species cfg e sp w =
    (case fetch_all cfg e sp urls (sched w) \<lparr>dir = safe_mkdir (images_at w sp), requests = sent w\<rparr> of
       Inl err \<Rightarrow> Inl (err, w1)
     | Inr (downloaded, st) \<Rightarrow>
         (let w2 = log (Downloaded (length downloaded) sp)
                    ((put_images sp (dir st) w1)\<lparr>sent := requests st, sched := skip (2 * length urls) (sched w)\<rparr>)
          in if length downloaded < MAX_IMAGES_PER_SPECIES cfg then
               (case top_up cfg sp (length downloaded) (dir st) g of
                  Inl (err, imgs, g') \<Rightarrow>
                    Inl (err, (put_images sp imgs (log (Augmenting sp) w2))\<lparr>rng := g'\<rparr>)
                | Inr (augment_count, imgs, g') \<Rightarrow>
                    Inr (log (Summary sp (length downloaded) augment_count (MAX_IMAGES_PER_SPECIES cfg))
                          ((put_images sp imgs (log (Augmenting sp) w2))\<lparr>rng := g'\<rparr>)))
             else Inr (log (Summary sp (length downloaded) 0 (MAX_IMAGES_PER_SPECIES cfg)) w2)))"
  using csvs read col cand
  by (simp add: process_species_def Let_def species_at_log species_at_put_images csv_files_def w1
      put_images_fields log_fields
      split: sum.splits prod.splits)

lemma process_species_topped_up:
  assumes csvs: "csv_files (species_at w sp) \<noteq> []"
    and read: "read_all e (csv_files (species_at w sp)) = Inr df"
    and col: "''image_url'' \<in> set (columns df)"
    and cand: "candidate_urls cfg (rng w) df = (urls, g)"
    and fetch: "fetch_all cfg e sp urls (sched w) \<lparr>dir = safe_mkdir (images_at w sp), requests = sent w\<rparr> =
                  Inr (downloaded, st)"
    and less: "length downloaded < MAX_IMAGES_PER_SPECIES cfg"
    and top: "top_up cfg sp (length downloaded) (dir st) g = Inr (augment_count, imgs, g')"
  shows "\<exists>w'. process_species cfg e sp w = Inr w' \<and>
    images_at w' sp = Some imgs \<and>
    sent w' = requests st \<and>
    console w' = console w @
      [Processing sp, Downloading (length urls) sp, Downloaded (length downloaded) sp, Augmenting sp,
       Summary sp (length downloaded) augment_count (MAX_IMAGES_PER_SPECIES cfg)]"
  by (subst process_species_fetch [OF csvs read col cand refl])
     (simp add: fetch less top Let_def images_at_log images_at_rng images_at_put_images log_fields
        put_images_fields)

lemma process_species_starved:
  assumes csvs: "csv_files (species_at w sp) \<noteq> []"
    and read: "read_all e (csv_files (species_at w sp)) = Inr df"
    and col: "''image_url'' \<in> set (columns df)"
    and cand: "candidate_urls cfg (rng w) df = (urls, g)"
    and fetch: "fetch_all cfg e sp urls (sched w) \<lparr>dir = safe_mkdir (images_at w sp), requests = sent w\<rparr> =
                  Inr (downloaded, st)"
    and less: "length downloaded < MAX_IMAGES_PER_SPECIES cfg"
    and top: "top_up cfg sp (length downloaded) (dir st) g = Inl (err, imgs, g')"
  shows "\<exists>w'. process_species cfg e sp w = Inl (err, w') \<and>
    images_at w' sp = Some imgs \<and>
    sent w' = requests st \<and>
    console w' = console w @
      [Processing sp, Downloading (length urls) sp, Downloaded (length downloaded) sp, Augmenting sp]"
  by (subst process_species_fetch [OF csvs read col cand refl])
     (simp add: fetch less top Let_def images_at_log images_at_rng images_at_put_images log_fields
        put_images_fields)

lemma process_species_complete:
  assumes csvs: "csv_files (species_at w sp) \<noteq> []"
    and read: "read_all e (csv_files (species_at w sp)) = Inr df"
    and col: "''image_url'' \<in> set (columns df)"
    and cand: "candidate_urls cfg (rng w) df = (urls, g)"
    and fetch: "fetch_all cfg e sp urls (sched w) \<lparr>dir = safe_mkdir (images_at w sp), requests = sent w\<rparr> =
                  Inr (downloaded, st)"
    and full: "\<not> length downloaded < MAX_IMAGES_PER_SPECIES cfg"
  shows "\<exists>w'. process_species cfg e sp w = Inr w' \<and>
    images_at w' sp = Some (dir st) \<and>
    sent w' = requests st \<and>
    console w' = console w @
      [Processing sp, Downloading (length urls) sp, Downloaded (length downloaded) sp,
       Summary sp (length downloaded) 0 (MAX_IMAGES_PER_SPECIES cfg)]"
  by (subst process_species_fetch [OF csvs read col cand refl])
     (simp add: fetch full Let_def images_at_log images_at_rng images_at_put_images log_fields
        put_images_fields)

section \<open>The files of the examples\<close>

lemma read_one:
  "parse e lines = Inr (urls_frame us) \<Longrightarrow> [] \<notin> set us \<Longrightarrow>
   read_all e [(f, lines)] = Inr (urls_frame us)"
proof -
  assume p: "parse e lines = Inr (urls_frame us)" and "[] \<notin> set us"
  then have "map (map (\<lambda>(c, v). (c, empty_as_nan v))) (rows (urls_frame us)) = rows (urls_frame us)"
    by (induction us) (auto simp: urls_frame_def empty_as_nan_def)
  then have "read_csv e lines = Inr (urls_frame us)"
    by (simp add: read_csv_def p)
  then show ?thesis
    by (simp add: read_all_def pd_concat_def urls_frame_def)
qed

lemma urls_frame_column: "''image_url'' \<in> set (columns (urls_frame us))"
  by (simp add: urls_frame_def)

lemma gap_csvs:
  "csv_files (species_at gap_world ''Aphid'') = [(''urls.csv'', [''image_url'', ''http://a'', ''http://b''])]"
  by (simp add: csv_files_def species_at_def gap_world_def endswith_def)

lemma gap_read:
  "read_all gap_env (csv_files (species_at gap_world ''Aphid'')) = Inr (urls_frame [''http://a'', ''http://b''])"
  unfolding gap_csvs by (rule read_one) (simp_all add: gap_env_def example_parse_def)

lemma gap_candidates:
  "candidate_urls cfg (\<lambda>k. 0) (urls_frame [''http://a'', ''http://b'']) =
     (take (MAX_IMAGES_PER_SPECIES cfg) [Text ''http://b'', Text ''http://a''], (\<lambda>k. 0))"
  by (simp add: candidate_urls_def column_def unique_def random_shuffle_def randbelow_def skip_def
      urls_frame_def)

lemma one_candidate:
  "candidate_urls cfg g (urls_frame [u]) = (take (MAX_IMAGES_PER_SPECIES cfg) [Text u], g)"
  by (simp add: candidate_urls_def column_def unique_def random_shuffle_def skip_def urls_frame_def)

section \<open>A run with a failed first download\<close>

lemma gap_fetch:
  "fetch_all source_config gap_env ''Aphid'' [Text ''http://b'', Text ''http://a''] (\<lambda>k. 0) \<lparr>dir = [], requests = []\<rparr> =
     Inr ([1], \<lparr>dir = [(img_name ''Aphid'' 2, Resize (512, 512) (Convert ''RGB'' (Picture ''a'')))],
                requests = [Text ''http://b'', Text ''http://a'']\<rparr>)"
  by (simp add: fetch_all_def source_config_def enumerate_eq_zip gap_env_def executor.simps
       download_image_def fetch_def save_def as_completed_def randbelow_def skip_def IMAGE_SIZE_def numeral_2_eq_2)

lemma top_up_Inr:
  assumes "filter (\<lambda>f. endswith f ''.jpg'') (listdir imgs) \<noteq> []"
  shows "\<exists>imgs' g'.
    top_up cfg sp d imgs g = Inr (MAX_IMAGES_PER_SPECIES cfg - d, imgs', g') \<and>
    set (listdir imgs') = set (listdir imgs) \<union> img_name sp ` {d + 1..MAX_IMAGES_PER_SPECIES cfg}"
proof -
  let ?existing = "filter (\<lambda>f. endswith f ''.jpg'') (listdir imgs)"
  have "set ?existing \<subseteq> fst ` set imgs"
    by (auto simp: listdir_def)
  with assms obtain imgs' g' where
    res: "augment_loop (MAX_IMAGES_PER_SPECIES cfg) sp ?existing (d + 1) 0 imgs g =
       Inr (0 + (Suc (MAX_IMAGES_PER_SPECIES cfg) - (d + 1)), imgs', g')"
    using augment_loop_succeeds by blast
  then have "fst ` set imgs' = fst ` set imgs \<union> img_name sp ` {d + 1..MAX_IMAGES_PER_SPECIES cfg}"
    by (rule augment_loop_keys)
  with res show ?thesis
    by (simp add: top_up_def Let_def listdir_def)
qed

text \<open>
  Claim C1 says that a category with at least one successful download ends with exactly
  \<open>target_count\<close> image files, numbered 1 to \<open>target_count\<close> without gaps. The
  script, run with its own constants on a category whose first candidate fails and whose
  second succeeds, ends with 999 files numbered 2 to 1000: the download is saved under
  its position 2, the top-up starts at \<open>downloaded_count + 1 = 2\<close> and overwrites it,
  and nothing is ever written at index 1. The summary line still reports a total of 1000.
\<close>

theorem gap_run_leaves_999_files:
  "\<exists>w' imgs. process_species source_config gap_env ''Aphid'' gap_world = Inr w' \<and>
     images_at w' ''Aphid'' = Some imgs \<and>
     set (listdir imgs) = img_name ''Aphid'' ` {2..1000} \<and>
     card (set (listdir imgs)) = 999 \<and>
     last (console w') = Summary ''Aphid'' 1 999 1000"
proof -
  let ?dir1 = "[(img_name ''Aphid'' 2, Resize (512, 512) (Convert ''RGB'' (Picture ''a'')))]"
  let ?st = "\<lparr>dir = ?dir1, requests = [Text ''http://b'', Text ''http://a'']\<rparr>"
  have csvs: "csv_files (species_at gap_world ''Aphid'') \<noteq> []"
    by (simp add: gap_csvs)
  note read = gap_read and col = urls_frame_column [of "[''http://a'', ''http://b'']"]
  have cand: "candidate_urls source_config (rng gap_world) (urls_frame [''http://a'', ''http://b'']) =
      ([Text ''http://b'', Text ''http://a''], (\<lambda>k. 0))"
    by (simp add: gap_world_def gap_candidates source_config_def)
  have fetch: "fetch_all source_config gap_env ''Aphid'' [Text ''http://b'', Text ''http://a''] (sched gap_world)
      \<lparr>dir = safe_mkdir (images_at gap_world ''Aphid''), requests = sent gap_world\<rparr> = Inr ([1], ?st)"
    using gap_fetch by (simp add: gap_world_def images_at_def species_at_def safe_mkdir_def)
  have less: "length [1::nat] < MAX_IMAGES_PER_SPECIES source_config"
    by (simp add: source_config_def)
  have "filter (\<lambda>f. endswith f ''.jpg'') (listdir (dir ?st)) \<noteq> []"
    by (simp add: listdir_def img_name_jpg)
  from top_up_Inr [OF this, of source_config "''Aphid''" "length [1::nat]" "\<lambda>k. 0"]
  obtain imgs g' where
    top: "top_up source_config ''Aphid'' (length [1::nat]) (dir ?st) (\<lambda>k. 0) =
            Inr (MAX_IMAGES_PER_SPECIES source_config - length [1::nat], imgs, g')" and
    keys: "set (listdir imgs) =
            set (listdir (dir ?st)) \<union> img_name ''Aphid'' ` {length [1::nat] + 1..MAX_IMAGES_PER_SPECIES source_config}"
    by blast
  have names: "set (listdir imgs) = img_name ''Aphid'' ` {2..1000}"
    using keys by (auto simp: listdir_def source_config_def)
  have "card (img_name ''Aphid'' ` {2..1000}) = card {2..1000::nat}"
    by (rule card_image) (simp add: inj_on_def img_name_eq_iff)
  then have card: "card (set (listdir imgs)) = 999"
    by (simp add: names)
  from process_species_topped_up [OF csvs read col cand fetch less top]
  obtain w' where "process_species source_config gap_env ''Aphid'' gap_world = Inr w'"
    and "images_at w' ''Aphid'' = Some imgs"
    and "console w' = console gap_world @
      [Processing ''Aphid'', Downloading (length [Text ''http://b'', Text ''http://a'']) ''Aphid'',
       Downloaded (length [1::nat]) ''Aphid'', Augmenting ''Aphid'',
       Summary ''Aphid'' (length [1::nat]) (MAX_IMAGES_PER_SPECIES source_config - length [1::nat])
         (MAX_IMAGES_PER_SPECIES source_config)]"
    by blast
  then show ?thesis
    using names card by (simp add: source_config_def)
qed

section \<open>The fetch batch, the candidates and the top-up\<close>

lemma fetch_all_InrD:
  assumes "fetch_all cfg e sp urls s st = Inr (downloaded, st')"
  shows "0 < MAX_THREADS cfg"
    and "length downloaded = length (filter (\<lambda>u. fetch e u \<noteq> None) urls)"
    and "\<And>i. i < length urls \<Longrightarrow> map_of (dir st') (img_name sp (Suc i)) =
        (case fetch e (urls ! i) of None \<Rightarrow> map_of (dir st) (img_name sp (Suc i)) | Some img \<Rightarrow> Some img)"
    and "\<And>p. p \<notin> img_name sp ` {1..length urls} \<Longrightarrow> map_of (dir st') p = map_of (dir st) p"
    and "mset (requests st') = mset (requests st) + mset urls"
proof -
  show w: "0 < MAX_THREADS cfg"
    using assms by (auto simp: fetch_all_def split: if_splits)
  from fetch_all_Inr [OF w, of e sp urls s st] obtain d2 st2 where
    res: "fetch_all cfg e sp urls s st = Inr (d2, st2)" and
    facts: "length d2 = length (filter (\<lambda>u. fetch e u \<noteq> None) urls)"
      "\<forall>i<length urls. map_of (dir st2) (img_name sp (Suc i)) =
        (case fetch e (urls ! i) of None \<Rightarrow> map_of (dir st) (img_name sp (Suc i)) | Some img \<Rightarrow> Some img)"
      "\<forall>p. p \<notin> img_name sp ` {1..length urls} \<longrightarrow> map_of (dir st2) p = map_of (dir st) p"
      "mset (requests st2) = mset (requests st) + mset urls"
    by blast
  have eq: "d2 = downloaded" "st2 = st'"
    using res assms by simp_all
  show "length downloaded = length (filter (\<lambda>u. fetch e u \<noteq> None) urls)"
    using facts(1) by (simp add: eq)
  show "\<And>i. i < length urls \<Longrightarrow> map_of (dir st') (img_name sp (Suc i)) =
        (case fetch e (urls ! i) of None \<Rightarrow> map_of (dir st) (img_name sp (Suc i)) | Some img \<Rightarrow> Some img)"
    using facts(2) by (simp add: eq)
  show "\<And>p. p \<notin> img_name sp ` {1..length urls} \<Longrightarrow> map_of (dir st') p = map_of (dir st) p"
    using facts(3) by (simp add: eq)
  show "mset (requests st') = mset (requests st) + mset urls"
    using facts(4) by (simp add: eq)
qed

text \<open>
  Claim C3: for a batch of candidate locations of which K can be fetched as images,
  the fetch pool reports exactly K successes as \<open>downloaded_count\<close>, whatever the
  concurrency limit (at least 1), the order in which the workers finish and the order
  in which the finished futures are handed out. The bound of the limit by the batch
  size is not needed. A location counts as valid when \<open>fetch\<close> gives an image for it.
\<close>

theorem fetch_all_counts_valid:
  assumes "1 \<le> MAX_THREADS cfg"
  shows "\<exists>downloaded st'.
    fetch_all cfg e sp urls s st = Inr (downloaded, st') \<and>
    length downloaded = length (filter (\<lambda>u. fetch e u \<noteq> None) urls)"
proof -
  have "0 < MAX_THREADS cfg"
    using assms by simp
  from fetch_all_Inr [OF this, of e sp urls s st] show ?thesis
    by blast
qed

theorem fetch_all_counts_valid_witness:
  "1 \<le> MAX_THREADS source_config \<and>
   length (filter (\<lambda>u. fetch gap_env u \<noteq> None) [Text ''http://b'', Text ''http://a'']) = 1 \<and>
   (\<exists>downloaded st'.
      fetch_all source_config gap_env ''Aphid'' [Text ''http://b'', Text ''http://a''] (\<lambda>k. 0) \<lparr>dir = [], requests = []\<rparr> =
        Inr (downloaded, st') \<and>
      length downloaded = 1)"
proof -
  have w: "1 \<le> MAX_THREADS source_config"
    by (simp add: source_config_def)
  have k: "length (filter (\<lambda>u. fetch gap_env u \<noteq> None) [Text ''http://b'', Text ''http://a'']) = 1"
    by (simp add: fetch_def gap_env_def)
  show ?thesis
    using w k fetch_all_counts_valid [OF w, of gap_env "''Aphid''" "[Text ''http://b'', Text ''http://a'']" "\<lambda>k. 0"
        "\<lparr>dir = [], requests = []\<rparr>"]
    by simp
qed

text \<open>
  Claim C7: the file a candidate is written to is named after its 1-based position in
  the candidate list. Two runs of the fetch batch that differ only in the scheduler
  (the order of completion and of hand-out) leave the same files with the same contents,
  and the candidate at position \<open>i + 1\<close> is at \<open>img_name sp (i + 1)\<close> in both.
\<close>

theorem destination_by_position:
  assumes "0 < MAX_THREADS cfg"
  shows "\<exists>d1 st1 d2 st2.
    fetch_all cfg e sp urls s1 st = Inr (d1, st1) \<and>
    fetch_all cfg e sp urls s2 st = Inr (d2, st2) \<and>
    map_of (dir st1) = map_of (dir st2) \<and>
    (\<forall>i<length urls. \<forall>img. fetch e (urls ! i) = Some img \<longrightarrow>
        map_of (dir st1) (img_name sp (i + 1)) = Some img \<and>
        map_of (dir st2) (img_name sp (i + 1)) = Some img)"
proof -
  from fetch_all_Inr [OF assms, of e sp urls s1 st] obtain d1 st1 where
    r1: "fetch_all cfg e sp urls s1 st = Inr (d1, st1)"
    by blast
  from fetch_all_Inr [OF assms, of e sp urls s2 st] obtain d2 st2 where
    r2: "fetch_all cfg e sp urls s2 st = Inr (d2, st2)"
    by blast
  note f1 = fetch_all_InrD [OF r1] and f2 = fetch_all_InrD [OF r2]
  have same: "map_of (dir st1) = map_of (dir st2)"
  proof
    fix p
    show "map_of (dir st1) p = map_of (dir st2) p"
    proof (cases "p \<in> img_name sp ` {1..length urls}")
      case True
      then obtain i where "i < length urls" "p = img_name sp (Suc i)"
        by (auto simp: image_iff Bex_def) (metis Suc_le_D Suc_le_lessD)
      then show ?thesis
        using f1(3) [of i] f2(3) [of i] by simp
    next
      case False
      then show ?thesis
        using f1(4) [of p] f2(4) [of p] by simp
    qed
  qed
  have "\<forall>i<length urls. \<forall>img. fetch e (urls ! i) = Some img \<longrightarrow>
        map_of (dir st1) (img_name sp (i + 1)) = Some img \<and>
        map_of (dir st2) (img_name sp (i + 1)) = Some img"
    using f1(3) f2(3) by simp
  with r1 r2 same show ?thesis
    by blast
qed

theorem destination_by_position_witness:
  "0 < MAX_THREADS source_config \<and>
   executor (\<lambda>k. 0) [''first'', ''second''] [] \<noteq> executor (\<lambda>k. 1) [''first'', ''second''] [] \<and>
   fetch gap_env ([Text ''http://b'', Text ''http://a''] ! 1) = Some (Resize (512, 512) (Convert ''RGB'' (Picture ''a''))) \<and>
   (\<exists>d1 st1 d2 st2.
      fetch_all source_config gap_env ''Aphid'' [Text ''http://b'', Text ''http://a''] (\<lambda>k. 0) \<lparr>dir = [], requests = []\<rparr> =
        Inr (d1, st1) \<and>
      fetch_all source_config gap_env ''Aphid'' [Text ''http://b'', Text ''http://a''] (\<lambda>k. 1) \<lparr>dir = [], requests = []\<rparr> =
        Inr (d2, st2) \<and>
      map_of (dir st1) = map_of (dir st2) \<and>
      map_of (dir st1) (img_name ''Aphid'' 2) = Some (Resize (512, 512) (Convert ''RGB'' (Picture ''a''))) \<and>
      map_of (dir st2) (img_name ''Aphid'' 2) = Some (Resize (512, 512) (Convert ''RGB'' (Picture ''a''))))"
proof -
  have w: "0 < MAX_THREADS source_config"
    by (simp add: source_config_def)
  have orders: "executor (\<lambda>k. 0) [''first'', ''second''] [] \<noteq> executor (\<lambda>k. 1) [''first'', ''second''] []"
    by (simp add: executor.simps skip_def)
  have a: "fetch gap_env ([Text ''http://b'', Text ''http://a''] ! 1) = Some (Resize (512, 512) (Convert ''RGB'' (Picture ''a'')))"
    by (simp add: fetch_def gap_env_def IMAGE_SIZE_def)
  from destination_by_position [OF w, of gap_env "''Aphid''" "[Text ''http://b'', Text ''http://a'']" "\<lambda>k. 0"
      "\<lparr>dir = [], requests = []\<rparr>" "\<lambda>k. 1"]
  obtain d1 st1 d2 st2 where
    "fetch_all source_config gap_env ''Aphid'' [Text ''http://b'', Text ''http://a''] (\<lambda>k. 0) \<lparr>dir = [], requests = []\<rparr> =
        Inr (d1, st1)" and
    "fetch_all source_config gap_env ''Aphid'' [Text ''http://b'', Text ''http://a''] (\<lambda>k. 1) \<lparr>dir = [], requests = []\<rparr> =
        Inr (d2, st2)" and
    "map_of (dir st1) = map_of (dir st2)" and
    "\<forall>i<length [Text ''http://b'', Text ''http://a'']. \<forall>img. fetch gap_env ([Text ''http://b'', Text ''http://a''] ! i) = Some img \<longrightarrow>
        map_of (dir st1) (img_name ''Aphid'' (i + 1)) = Some img \<and>
        map_of (dir st2) (img_name ''Aphid'' (i + 1)) = Some img"
    by blast
  moreover from this(4) a have
    "map_of (dir st1) (img_name ''Aphid'' (1 + 1)) = Some (Resize (512, 512) (Convert ''RGB'' (Picture ''a''))) \<and>
     map_of (dir st2) (img_name ''Aphid'' (1 + 1)) = Some (Resize (512, 512) (Convert ''RGB'' (Picture ''a'')))"
    by (metis One_nat_def length_Cons lessI list.size(3))
  ultimately show ?thesis
    using w orders a by (simp del: One_nat_def)
qed

lemma aphid_read: "read_all gap_env [(''aphid.csv'', aphid_csv)] = Inr aphid_frame"
  by (simp add: read_all_def read_csv_def gap_env_def example_parse_def aphid_csv_def aphid_frame_def
      pd_concat_def empty_as_nan_def)

text \<open>
  Claim C4: the candidate list made from the merged metadata (union of the
  \<open>image_url\<close> values, missing values dropped, duplicates removed, shuffled, truncated)
  has at most \<open>target_count\<close> entries, no duplicates, no empty string, and every entry
  is a value that is present (not \<open>NaN\<close>) in the column.
\<close>

theorem candidates_bounded_distinct_present:
  assumes read: "read_all e csvs = Inr df"
  shows "length (fst (candidate_urls cfg g df)) \<le> MAX_IMAGES_PER_SPECIES cfg \<and>
   distinct (fst (candidate_urls cfg g df)) \<and>
   Text [] \<notin> set (fst (candidate_urls cfg g df)) \<and>
   (\<forall>v\<in>set (fst (candidate_urls cfg g df)). Val v \<in> set (column df ''image_url''))"
proof -
  define col where "col = column df ''image_url''"
  define urls where "urls = random_shuffle g (unique (dropna col))"
  have cand: "fst (candidate_urls cfg g df) = take (MAX_IMAGES_PER_SPECIES cfg) urls"
    by (simp add: candidate_urls_def Let_def urls_def col_def)
  have m: "mset urls = mset (unique (dropna col))"
    by (simp add: urls_def mset_random_shuffle)
  then have "distinct urls"
    using distinct_unique [of "dropna col"] by (metis mset_eq_imp_distinct_iff)
  then have d: "distinct (take (MAX_IMAGES_PER_SPECIES cfg) urls)"
    by (rule distinct_take)
  have "set urls = set (unique (dropna col))"
    using m by (rule mset_eq_setD)
  then have s: "set urls = {v. Val v \<in> set col}"
    by (simp add: set_unique set_dropna)
  have sub: "set (take (MAX_IMAGES_PER_SPECIES cfg) urls) \<subseteq> {v. Val v \<in> set col}"
    using set_take_subset [of "MAX_IMAGES_PER_SPECIES cfg" urls] s by simp
  have "Val (Text []) \<notin> set col"
    unfolding col_def using read by (rule column_read_all)
  then have e: "Text [] \<notin> set (take (MAX_IMAGES_PER_SPECIES cfg) urls)"
    using sub by auto
  show ?thesis
    unfolding cand using d e sub by (auto simp: col_def)
qed

theorem candidates_bounded_distinct_present_witness:
  "read_all gap_env [(''aphid.csv'', aphid_csv)] = Inr aphid_frame \<and>
   column aphid_frame ''image_url'' =
     [Val (Text ''http://a''), Val (Text ''http://b''), NaN, Val (Text ''http://a'')] \<and>
   fst (candidate_urls \<lparr>MAX_IMAGES_PER_SPECIES = 2, MAX_THREADS = 16\<rparr> (\<lambda>k. 0) aphid_frame) =
     [Text ''http://b'', Text ''http://a''] \<and>
   length [Text ''http://b'', Text ''http://a''] \<le> (2::nat) \<and>
   distinct [Text ''http://b'', Text ''http://a''] \<and>
   Text [] \<notin> set [Text ''http://b'', Text ''http://a''] \<and>
   Val (Text ''http://b'') \<in> set (column aphid_frame ''image_url'') \<and>
   Val (Text ''http://a'') \<in> set (column aphid_frame ''image_url'')"
proof -
  have col: "column aphid_frame ''image_url'' =
     [Val (Text ''http://a''), Val (Text ''http://b''), NaN, Val (Text ''http://a'')]"
    by (simp add: aphid_frame_def column_def)
  have cand: "fst (candidate_urls \<lparr>MAX_IMAGES_PER_SPECIES = 2, MAX_THREADS = 16\<rparr> (\<lambda>k. 0) aphid_frame) =
     [Text ''http://b'', Text ''http://a'']"
    by (simp add: candidate_urls_def col unique_def random_shuffle_def randbelow_def skip_def)
  show ?thesis
    using candidates_bounded_distinct_present [OF aphid_read,
        of "\<lparr>MAX_IMAGES_PER_SPECIES = 2, MAX_THREADS = 16\<rparr>" "\<lambda>k. 0"]
    unfolding cand using col cand aphid_read by simp
qed

text \<open>
  Claim C2: when the fetch pool reported \<open>D\<close> successes with
  \<open>0 < D < target_count\<close>, the top-up returns normally with
  \<open>augment_count = target_count - D\<close>; afterwards each name with an index in
  \<open>{D + 1 .. target_count}\<close> holds an augmented image, and no other path of the
  directory was changed: the indices used for augmented files are exactly these.
\<close>

theorem top_up_fills_the_gap_to_target:
  assumes fetch: "fetch_all cfg e sp urls s st = Inr (downloaded, st')"
    and pos: "0 < length downloaded"
    and less: "length downloaded < MAX_IMAGES_PER_SPECIES cfg"
  shows "\<exists>imgs g'.
    top_up cfg sp (length downloaded) (dir st') g =
      Inr (MAX_IMAGES_PER_SPECIES cfg - length downloaded, imgs, g') \<and>
    (\<forall>k\<in>{length downloaded + 1..MAX_IMAGES_PER_SPECIES cfg}.
        \<exists>src aug. map_of imgs (img_name sp k) = Some aug \<and> is_augmentation_of src aug) \<and>
    (\<forall>p. p \<notin> img_name sp ` {length downloaded + 1..MAX_IMAGES_PER_SPECIES cfg} \<longrightarrow>
        map_of imgs p = map_of (dir st') p)"
proof -
  let ?existing = "filter (\<lambda>f. endswith f ''.jpg'') (listdir (dir st'))"
  let ?T = "MAX_IMAGES_PER_SPECIES cfg"
  let ?D = "length downloaded"
  note f = fetch_all_InrD [OF fetch]
  have "filter (\<lambda>u. fetch e u \<noteq> None) urls \<noteq> []"
    using pos f(2) by auto
  then have "\<exists>u\<in>set urls. fetch e u \<noteq> None"
    by (simp add: filter_empty_conv)
  then obtain u where u: "u \<in> set urls" "fetch e u \<noteq> None"
    by blast
  from u(1) obtain i where "i < length urls" "urls ! i = u"
    by (auto simp: in_set_conv_nth)
  with u(2) obtain img where i: "i < length urls" "fetch e (urls ! i) = Some img"
    by auto
  then have "map_of (dir st') (img_name sp (Suc i)) = Some img"
    using f(3) [of i] by simp
  then have "(img_name sp (Suc i), img) \<in> set (dir st')"
    by (rule map_of_SomeD)
  then have "img_name sp (Suc i) \<in> set (listdir (dir st'))"
    by (force simp: listdir_def)
  then have "img_name sp (Suc i) \<in> set ?existing"
    by (simp add: img_name_jpg)
  then have nonempty: "?existing \<noteq> []"
    by (metis empty_iff empty_set)
  have sub: "set ?existing \<subseteq> fst ` set (dir st')"
    by (auto simp: listdir_def)
  from augment_loop_succeeds [OF nonempty sub, of ?T sp "?D + 1" 0 g] obtain imgs g' where
    loop: "augment_loop ?T sp ?existing (?D + 1) 0 (dir st') g = Inr (0 + (Suc ?T - (?D + 1)), imgs, g')"
    by blast
  then have res: "top_up cfg sp ?D (dir st') g = Inr (?T - ?D, imgs, g')"
    by (simp add: top_up_def Let_def)
  have written: "\<forall>k\<in>{?D + 1..?T}. \<exists>src aug. map_of imgs (img_name sp k) = Some aug \<and> is_augmentation_of src aug"
  proof
    fix k
    assume "k \<in> {?D + 1..?T}"
    with loop show "\<exists>src aug. map_of imgs (img_name sp k) = Some aug \<and> is_augmentation_of src aug"
      by (blast dest: augment_loop_sources)
  qed
  have other: "\<forall>p. p \<notin> img_name sp ` {?D + 1..?T} \<longrightarrow> map_of imgs p = map_of (dir st') p"
    using loop by (blast dest: augment_loop_other)
  show ?thesis
    using res written other by blast
qed

theorem top_up_fills_the_gap_to_target_witness:
  "fetch_all source_config gap_env ''Aphid'' [Text ''http://b'', Text ''http://a''] (\<lambda>k. 0) \<lparr>dir = [], requests = []\<rparr> =
     Inr ([1], \<lparr>dir = [(img_name ''Aphid'' 2, Resize (512, 512) (Convert ''RGB'' (Picture ''a'')))],
                requests = [Text ''http://b'', Text ''http://a'']\<rparr>) \<and>
   0 < length [1::nat] \<and> length [1::nat] < MAX_IMAGES_PER_SPECIES source_config \<and>
   (\<exists>imgs g'.
      top_up source_config ''Aphid'' (length [1::nat])
          (dir \<lparr>dir = [(img_name ''Aphid'' 2, Resize (512, 512) (Convert ''RGB'' (Picture ''a'')))],
                requests = [Text ''http://b'', Text ''http://a'']\<rparr>) (\<lambda>k. 0) =
        Inr (MAX_IMAGES_PER_SPECIES source_config - length [1::nat], imgs, g'))"
proof -
  have less: "length [1::nat] < MAX_IMAGES_PER_SPECIES source_config"
    by (simp add: source_config_def)
  have pos: "0 < length [1::nat]"
    by simp
  from top_up_fills_the_gap_to_target [OF gap_fetch pos less, of "\<lambda>k. 0"]
  have "\<exists>imgs g'.
      top_up source_config ''Aphid'' (length [1::nat])
          (dir \<lparr>dir = [(img_name ''Aphid'' 2, Resize (512, 512) (Convert ''RGB'' (Picture ''a'')))],
                requests = [Text ''http://b'', Text ''http://a'']\<rparr>) (\<lambda>k. 0) =
        Inr (MAX_IMAGES_PER_SPECIES source_config - length [1::nat], imgs, g')"
    by blast
  with gap_fetch pos less show ?thesis
    by blast
qed

section \<open>Skipped categories and a target of zero\<close>

lemma fetch_all_empty:
  "0 < MAX_THREADS cfg \<Longrightarrow> fetch_all cfg e sp [] s st = Inr ([], st)"
  by (simp add: fetch_all_def executor.simps as_completed_def)

lemma candidate_urls_zero:
  "MAX_IMAGES_PER_SPECIES cfg = 0 \<Longrightarrow> fst (candidate_urls cfg g df) = []"
  by (simp add: candidate_urls_def Let_def)

lemma bare_beetle: "csv_files (species_at bare_world ''Beetle'') = []"
  by (simp add: csv_files_def species_at_def bare_world_def endswith_def)

lemma bare_cicada: "csv_files (species_at bare_world ''Cicada'') = [(''ids.csv'', [''id'', ''7''])]"
  by (simp add: csv_files_def species_at_def bare_world_def endswith_def)

lemma bare_cicada_read:
  "read_all gap_env [(''ids.csv'', [''id'', ''7''])] =
     Inr \<lparr>columns = [''id''], rows = [[(''id'', Val (NonText 7))]]\<rparr>"
  by (simp add: read_all_def read_csv_def gap_env_def example_parse_def pd_concat_def empty_as_nan_def)

lemma broken_csvs:
  "csv_files (species_at broken_world ''Aphid'') = [(''urls.csv'', [''image_url'', ''http://a,http://b''])]"
  by (simp add: csv_files_def species_at_def broken_world_def endswith_def)

lemma broken_read:
  "read_all gap_env [(''urls.csv'', [''image_url'', ''http://a,http://b''])] = Inl ParserError"
  by (simp add: read_all_def read_csv_def gap_env_def example_parse_def)



text \<open>
  Claim C8: with a target count of 0 (and a valid thread count), a category sends no
  request, enters no augmentation and writes no image file: \<open>sent\<close> and the entries of
  the images directory are unchanged and the console shows no \<open>Augmenting\<close> line,
  whether the category is skipped, its CSV files cannot be read (the call then ends with
  the parser's exception, after the \<open>Processing\<close> line), or it is processed; in the
  last case the summary reports 0 downloaded and 0 augmented.
\<close>

theorem zero_target_does_nothing:
  assumes zero: "MAX_IMAGES_PER_SPECIES cfg = 0" and threads: "0 < MAX_THREADS cfg"
  shows "\<exists>w'.
    sent w' = sent w \<and>
    images_at w' sp = Some (safe_mkdir (images_at w sp)) \<and>
    (if csv_files (species_at w sp) = [] then
       process_species cfg e sp w = Inr w' \<and> console w' = console w @ [Processing sp, NoCsv sp]
     else
       case read_all e (csv_files (species_at w sp)) of
         Inl err \<Rightarrow>
           process_species cfg e sp w = Inl (err, w') \<and> console w' = console w @ [Processing sp]
       | Inr df \<Rightarrow>
           process_species cfg e sp w = Inr w' \<and>
           console w' = console w @
             (if ''image_url'' \<notin> set (columns df) then [Processing sp, ColumnMissing sp]
              else [Processing sp, Downloading 0 sp, Downloaded 0 sp, Summary sp 0 0 0]))"
proof (cases "csv_files (species_at w sp) = []")
  case True
  then show ?thesis
    by (simp add: process_species_no_csv images_at_log images_at_put_images log_fields put_images_fields)
next
  case csvs: False
  show ?thesis
  proof (cases "read_all e (csv_files (species_at w sp))")
    case (Inl err)
    with csvs show ?thesis
      by (simp add: process_species_unread images_at_log images_at_put_images log_fields
          put_images_fields)
  next
    case read: (Inr df)
    show ?thesis
    proof (cases "''image_url'' \<in> set (columns df)")
      case False
      with csvs read show ?thesis
        by (simp add: process_species_no_column images_at_log images_at_put_images log_fields
            put_images_fields)
    next
      case col: True
      obtain urls g where cand: "candidate_urls cfg (rng w) df = (urls, g)"
        by (cases "candidate_urls cfg (rng w) df")
      have "urls = []"
        using candidate_urls_zero [OF zero, of "rng w" df] cand by simp
      then have cand0: "candidate_urls cfg (rng w) df = ([], g)"
        using cand by simp
      have fetch: "fetch_all cfg e sp [] (sched w) \<lparr>dir = safe_mkdir (images_at w sp), requests = sent w\<rparr> =
          Inr ([], \<lparr>dir = safe_mkdir (images_at w sp), requests = sent w\<rparr>)"
        using threads by (rule fetch_all_empty)
      have full: "\<not> length ([]::nat list) < MAX_IMAGES_PER_SPECIES cfg"
        by (simp add: zero)
      from process_species_complete [OF csvs read col cand0 fetch full] show ?thesis
        using csvs read col by (auto simp: zero)
    qed
  qed
qed

theorem zero_target_does_nothing_witness:
  "MAX_IMAGES_PER_SPECIES \<lparr>MAX_IMAGES_PER_SPECIES = 0, MAX_THREADS = 16\<rparr> = 0 \<and>
   0 < MAX_THREADS \<lparr>MAX_IMAGES_PER_SPECIES = 0, MAX_THREADS = 16\<rparr> \<and>
   (\<exists>w'. process_species \<lparr>MAX_IMAGES_PER_SPECIES = 0, MAX_THREADS = 16\<rparr> gap_env ''Aphid'' gap_world = Inr w' \<and>
      sent w' = [] \<and> images_at w' ''Aphid'' = Some [] \<and>
      console w' = [Processing ''Aphid'', Downloading 0 ''Aphid'', Downloaded 0 ''Aphid'', Summary ''Aphid'' 0 0 0]) \<and>
   (\<exists>w'. process_species \<lparr>MAX_IMAGES_PER_SPECIES = 0, MAX_THREADS = 16\<rparr> gap_env ''Aphid'' broken_world =
        Inl (ParserError, w') \<and>
      sent w' = [] \<and> images_at w' ''Aphid'' = Some [] \<and> console w' = [Processing ''Aphid''])"
proof -
  let ?cfg = "\<lparr>MAX_IMAGES_PER_SPECIES = 0, MAX_THREADS = 16\<rparr>"
  have zero: "MAX_IMAGES_PER_SPECIES ?cfg = 0" and threads: "0 < MAX_THREADS ?cfg"
    by simp_all
  have i: "images_at gap_world ''Aphid'' = None" "images_at broken_world ''Aphid'' = None"
    by (simp_all add: images_at_def species_at_def gap_world_def broken_world_def)
  have f: "console gap_world = []" "sent gap_world = []" "console broken_world = []" "sent broken_world = []"
    by (simp_all add: gap_world_def broken_world_def)
  have gr: "read_all gap_env [(''urls.csv'', [''image_url'', ''http://a'', ''http://b''])] =
      Inr (urls_frame [''http://a'', ''http://b''])"
    using gap_read by (simp only: gap_csvs)
  from zero_target_does_nothing [OF zero threads, of gap_world "''Aphid''" gap_env]
  have a: "\<exists>w'. process_species ?cfg gap_env ''Aphid'' gap_world = Inr w' \<and>
      sent w' = [] \<and> images_at w' ''Aphid'' = Some [] \<and>
      console w' = [Processing ''Aphid'', Downloading 0 ''Aphid'', Downloaded 0 ''Aphid'', Summary ''Aphid'' 0 0 0]"
    by (simp add: gap_csvs gr urls_frame_column i f safe_mkdir_def) blast
  from zero_target_does_nothing [OF zero threads, of broken_world "''Aphid''" gap_env]
  have b: "\<exists>w'. process_species ?cfg gap_env ''Aphid'' broken_world = Inl (ParserError, w') \<and>
      sent w' = [] \<and> images_at w' ''Aphid'' = Some [] \<and> console w' = [Processing ''Aphid'']"
    by (simp add: broken_csvs broken_read i f safe_mkdir_def) blast
  show ?thesis
    using a b by simp
qed

text \<open>
  Claim C10 says that a skipped category ends with an existing, empty images
  directory. \<open>safe_mkdir\<close> keeps a directory that is already there
  (\<open>exist_ok=True\<close>): a category without CSV file whose images directory holds a file
  from an earlier run is skipped and still holds that file.
\<close>

theorem skipped_directory_not_empty:
  "csv_files (species_at rerun_world ''Aphid'') = [] \<and>
   process_species source_config gap_env ''Aphid'' rerun_world =
     Inr (rerun_world\<lparr>console := [Processing ''Aphid'', NoCsv ''Aphid'']\<rparr>) \<and>
   images_at (rerun_world\<lparr>console := [Processing ''Aphid'', NoCsv ''Aphid'']\<rparr>) ''Aphid'' =
     Some [(''BugLiteAI_Aphid_Img0001.jpg'', Picture ''old'')]"
proof -
  have c: "csv_files (species_at rerun_world ''Aphid'') = []"
    by (simp add: csv_files_def species_at_def rerun_world_def)
  have "process_species source_config gap_env ''Aphid'' rerun_world =
     Inr (rerun_world\<lparr>console := [Processing ''Aphid'', NoCsv ''Aphid'']\<rparr>)"
    by (subst process_species_no_csv [OF c])
       (simp add: rerun_world_def images_at_def species_at_def safe_mkdir_def put_images_def save_def log_def)
  moreover have "images_at (rerun_world\<lparr>console := [Processing ''Aphid'', NoCsv ''Aphid'']\<rparr>) ''Aphid'' =
     Some [(''BugLiteAI_Aphid_Img0001.jpg'', Picture ''old'')]"
    by (simp add: rerun_world_def images_at_def species_at_def)
  ultimately show ?thesis
    using c by simp
qed

text \<open>
  Claim C10, amended: the images directory is made before the metadata is looked at, so
  a category skipped for missing metadata or a missing \<open>image_url\<close> column ends with
  an images directory; it holds the entries it held before the call, and is empty when
  it did not exist (or was empty) before.
\<close>

theorem skipped_directory_kept:
  assumes "csv_files (species_at w sp) = [] \<or>
           (\<exists>df. read_all e (csv_files (species_at w sp)) = Inr df \<and> ''image_url'' \<notin> set (columns df))"
  shows "\<exists>w'.
    process_species cfg e sp w = Inr w' \<and>
    images_at w' sp = Some (case images_at w sp of None \<Rightarrow> [] | Some entries \<Rightarrow> entries)"
  by (simp add: process_species_skip [OF assms] images_at_log images_at_put_images safe_mkdir_def)

theorem skipped_directory_kept_witness:
  "csv_files (species_at bare_world ''Beetle'') = [] \<and>
   images_at bare_world ''Beetle'' = None \<and>
   (\<exists>w'. process_species source_config gap_env ''Beetle'' bare_world = Inr w' \<and>
      images_at w' ''Beetle'' = Some []) \<and>
   read_all gap_env (csv_files (species_at bare_world ''Cicada'')) =
     Inr \<lparr>columns = [''id''], rows = [[(''id'', Val (NonText 7))]]\<rparr> \<and>
   ''image_url'' \<notin> set (columns \<lparr>columns = [''id''], rows = [[(''id'', Val (NonText 7))]]\<rparr>) \<and>
   images_at bare_world ''Cicada'' = None \<and>
   (\<exists>w'. process_species source_config gap_env ''Cicada'' bare_world = Inr w' \<and>
      images_at w' ''Cicada'' = Some []) \<and>
   csv_files (species_at rerun_world ''Aphid'') = [] \<and>
   (\<exists>w'. process_species source_config gap_env ''Aphid'' rerun_world = Inr w' \<and>
      images_at w' ''Aphid'' = Some [(''BugLiteAI_Aphid_Img0001.jpg'', Picture ''old'')])"
proof -
  have ib: "images_at bare_world ''Beetle'' = None" and ic: "images_at bare_world ''Cicada'' = None"
    by (simp_all add: images_at_def species_at_def bare_world_def)
  have m: "read_all gap_env (csv_files (species_at bare_world ''Cicada'')) =
     Inr \<lparr>columns = [''id''], rows = [[(''id'', Val (NonText 7))]]\<rparr>"
    by (simp only: bare_cicada bare_cicada_read)
  have r: "csv_files (species_at rerun_world ''Aphid'') = []"
    by (simp add: csv_files_def species_at_def rerun_world_def)
  have ir: "images_at rerun_world ''Aphid'' = Some [(''BugLiteAI_Aphid_Img0001.jpg'', Picture ''old'')]"
    by (simp add: images_at_def species_at_def rerun_world_def)
  have skip_c: "csv_files (species_at bare_world ''Cicada'') = [] \<or>
     (\<exists>df. read_all gap_env (csv_files (species_at bare_world ''Cicada'')) = Inr df \<and>
        ''image_url'' \<notin> set (columns df))"
    by (simp add: m)
  show ?thesis
    using skipped_directory_kept [of bare_world "''Beetle''" gap_env source_config]
      skipped_directory_kept [OF skip_c, of source_config]
      skipped_directory_kept [of rerun_world "''Aphid''" gap_env source_config]
    by (simp add: bare_beetle ib ic m r ir)
qed

section \<open>The sources of the augmentation\<close>

lemma name_1: "img_name ''Aphid'' (Suc 0) = ''BugLiteAI_Aphid_Img0001.jpg''"
  by code_simp

lemma name_2: "img_name ''Aphid'' (Suc (Suc 0)) = ''BugLiteAI_Aphid_Img0002.jpg''"
  by code_simp

lemma name_3: "img_name ''Aphid'' (Suc (Suc (Suc 0))) = ''BugLiteAI_Aphid_Img0003.jpg''"
  by code_simp

lemma second_csvs:
  "csv_files (species_at second_run_world ''Aphid'') = [(''urls.csv'', [''image_url'', ''http://a''])]"
  by (simp add: csv_files_def species_at_def second_run_world_def endswith_def)

lemma second_read:
  "read_all gap_env (csv_files (species_at second_run_world ''Aphid'')) = Inr (urls_frame [''http://a''])"
  unfolding second_csvs by (rule read_one) (simp_all add: gap_env_def example_parse_def)

lemma second_candidates:
  "candidate_urls small_config (rng second_run_world) (urls_frame [''http://a'']) =
   ([Text ''http://a''], rng second_run_world)"
  by (simp add: one_candidate small_config_def)

lemma second_fetch:
  "fetch_all small_config gap_env ''Aphid'' [Text ''http://a''] (sched second_run_world)
     \<lparr>dir = safe_mkdir (images_at second_run_world ''Aphid''), requests = sent second_run_world\<rparr> =
   Inr ([1], \<lparr>dir = [(''BugLiteAI_Aphid_Img0001.jpg'', downloaded_a),
                      (''BugLiteAI_Aphid_Img0002.jpg'', Picture ''old2''),
                      (''BugLiteAI_Aphid_Img0003.jpg'', Picture ''old3'')],
                requests = [Text ''http://a'']\<rparr>)"
  by (simp add: fetch_all_def small_config_def enumerate_eq_zip gap_env_def executor.simps
       download_image_def fetch_def save_def as_completed_def IMAGE_SIZE_def name_1
       second_run_world_def images_at_def species_at_def safe_mkdir_def downloaded_a_def)

lemma second_top_up:
  "top_up small_config ''Aphid'' (length [1::nat])
     [(''BugLiteAI_Aphid_Img0001.jpg'', downloaded_a),
      (''BugLiteAI_Aphid_Img0002.jpg'', Picture ''old2''),
      (''BugLiteAI_Aphid_Img0003.jpg'', Picture ''old3'')] (rng second_run_world) =
   Inr (2, [(''BugLiteAI_Aphid_Img0001.jpg'', downloaded_a),
            (''BugLiteAI_Aphid_Img0002.jpg'', old2_once),
            (''BugLiteAI_Aphid_Img0003.jpg'', old2_twice)], skip 10 (rng second_run_world))"
  by (simp add: top_up_def listdir_def endswith_def augment_loop.simps random_choice_def randbelow_def
      augment_image_def random_random_def random_uniform_def skip_def save_def small_config_def
      name_2 name_3 old2_once_def old2_twice_def second_run_world_def)

text \<open>
  Claim C9 says that every augmented image comes from a file that was in the directory
  before the loop started, and that augmented outputs of the run are never sampled. The
  pool that is fixed before the loop is a list of paths, not of contents, and it lists
  every \<open>.jpg\<close> file of the directory. On a second run over a directory that still
  holds \<open>Img0001\<close> to \<open>Img0003\<close> (target 3, one candidate, which downloads), the
  pool holds all three paths; the first step samples \<open>Img0002\<close> and overwrites it
  with an augmented image, the second step samples \<open>Img0002\<close> again: the new
  \<open>Img0003\<close> is an augmentation of an output of this run, and of none of the three
  files the directory held before the loop.
\<close>

theorem augmented_output_sampled_again:
  "\<exists>w'. process_species small_config gap_env ''Aphid'' second_run_world = Inr w' \<and>
     images_at w' ''Aphid'' =
       Some [(''BugLiteAI_Aphid_Img0001.jpg'', downloaded_a),
             (''BugLiteAI_Aphid_Img0002.jpg'', old2_once),
             (''BugLiteAI_Aphid_Img0003.jpg'', old2_twice)] \<and>
     is_augmentation_of old2_once old2_twice \<and>
     \<not> is_augmentation_of downloaded_a old2_twice \<and>
     \<not> is_augmentation_of (Picture ''old2'') old2_twice \<and>
     \<not> is_augmentation_of (Picture ''old3'') old2_twice"
proof -
  let ?st = "\<lparr>dir = [(''BugLiteAI_Aphid_Img0001.jpg'', downloaded_a),
                      (''BugLiteAI_Aphid_Img0002.jpg'', Picture ''old2''),
                      (''BugLiteAI_Aphid_Img0003.jpg'', Picture ''old3'')],
                requests = [Text ''http://a'']\<rparr>"
  have csvs: "csv_files (species_at second_run_world ''Aphid'') \<noteq> []"
    by (simp add: second_csvs)
  note read = second_read and col = urls_frame_column [of "[''http://a'']"] and cand = second_candidates
  have less: "length [1::nat] < MAX_IMAGES_PER_SPECIES small_config"
    by (simp add: small_config_def)
  have top: "top_up small_config ''Aphid'' (length [1::nat]) (dir ?st) (rng second_run_world) =
      Inr (2, [(''BugLiteAI_Aphid_Img0001.jpg'', downloaded_a),
               (''BugLiteAI_Aphid_Img0002.jpg'', old2_once),
               (''BugLiteAI_Aphid_Img0003.jpg'', old2_twice)], skip 10 (rng second_run_world))"
    using second_top_up by simp
  from process_species_topped_up [OF csvs read col cand second_fetch less top]
  obtain w' where "process_species small_config gap_env ''Aphid'' second_run_world = Inr w'"
    and "images_at w' ''Aphid'' =
       Some [(''BugLiteAI_Aphid_Img0001.jpg'', downloaded_a),
             (''BugLiteAI_Aphid_Img0002.jpg'', old2_once),
             (''BugLiteAI_Aphid_Img0003.jpg'', old2_twice)]"
    by blast
  moreover have "is_augmentation_of old2_once old2_twice"
    by (simp add: old2_twice_def)
  moreover have "\<not> is_augmentation_of downloaded_a old2_twice"
    and "\<not> is_augmentation_of (Picture ''old2'') old2_twice"
    and "\<not> is_augmentation_of (Picture ''old3'') old2_twice"
    by (simp_all add: old2_twice_def old2_once_def downloaded_a_def)
  ultimately show ?thesis
    by blast
qed

text \<open>
  Claim C9, amended: the pool of source paths is fixed once, before the loop: the
  \<open>.jpg\<close> paths listed in the directory at that moment. Every augmented image
  \<open>Img{k}\<close> is an augmentation of the file found, when it is sampled, at one of these
  paths. When the loop has not written that path before (it is none of
  \<open>Img{D+1}\<close>, ..., \<open>Img{k-1}\<close>), this file is the one the directory held before
  the loop started; otherwise it is the augmented image the loop wrote at that path,
  which is also what the path holds when the loop ends.
\<close>

theorem sources_from_the_listed_paths:
  assumes top: "top_up cfg sp d imgs g = Inr (augment_count, imgs', g')"
    and k: "k \<in> {d + 1..MAX_IMAGES_PER_SPECIES cfg}"
  shows "\<exists>p\<in>set (filter (\<lambda>f. endswith f ''.jpg'') (listdir imgs)). \<exists>src aug.
    map_of imgs' (img_name sp k) = Some aug \<and> is_augmentation_of src aug \<and>
    (if p \<in> img_name sp ` {d + 1..<k} then map_of imgs' p else map_of imgs p) = Some src"
proof -
  let ?existing = "filter (\<lambda>f. endswith f ''.jpg'') (listdir imgs)"
  have "augment_loop (MAX_IMAGES_PER_SPECIES cfg) sp ?existing (d + 1) 0 imgs g = Inr (augment_count, imgs', g')"
    using top by (simp add: top_up_def Let_def)
  then show ?thesis
    using k by (rule augment_loop_sources)
qed

lemma clean_top_up:
  "top_up small_config ''Aphid'' 1 [(''BugLiteAI_Aphid_Img0001.jpg'', downloaded_a)] (\<lambda>k. 0) =
   Inr (2, [(''BugLiteAI_Aphid_Img0001.jpg'', downloaded_a),
            (''BugLiteAI_Aphid_Img0002.jpg'', augmented_once),
            (''BugLiteAI_Aphid_Img0003.jpg'', augmented_once)], \<lambda>k. 0)"
  by (simp add: top_up_def listdir_def endswith_def augment_loop.simps random_choice_def randbelow_def
      augment_image_def random_random_def random_uniform_def skip_def save_def small_config_def
      name_2 name_3 augmented_once_def)

lemma second_pool:
  "filter (\<lambda>f. endswith f ''.jpg'')
     (listdir [(''BugLiteAI_Aphid_Img0001.jpg'', downloaded_a),
               (''BugLiteAI_Aphid_Img0002.jpg'', Picture ''old2''),
               (''BugLiteAI_Aphid_Img0003.jpg'', Picture ''old3'')]) =
   [img_name ''Aphid'' 1, img_name ''Aphid'' 2, img_name ''Aphid'' 3]"
proof -
  have "img_name ''Aphid'' 1 = ''BugLiteAI_Aphid_Img0001.jpg''"
    and "img_name ''Aphid'' 2 = ''BugLiteAI_Aphid_Img0002.jpg''"
    and "img_name ''Aphid'' 3 = ''BugLiteAI_Aphid_Img0003.jpg''"
    using name_1 name_2 name_3 by (simp_all add: eval_nat_numeral)
  then show ?thesis
    by (simp add: listdir_def endswith_def)
qed

theorem sources_from_the_listed_paths_witness:
  "top_up small_config ''Aphid'' (length [1::nat])
     [(''BugLiteAI_Aphid_Img0001.jpg'', downloaded_a),
      (''BugLiteAI_Aphid_Img0002.jpg'', Picture ''old2''),
      (''BugLiteAI_Aphid_Img0003.jpg'', Picture ''old3'')] (rng second_run_world) =
     Inr (2, [(''BugLiteAI_Aphid_Img0001.jpg'', downloaded_a),
              (''BugLiteAI_Aphid_Img0002.jpg'', old2_once),
              (''BugLiteAI_Aphid_Img0003.jpg'', old2_twice)], skip 10 (rng second_run_world)) \<and>
   (3::nat) \<in> {length [1::nat] + 1..MAX_IMAGES_PER_SPECIES small_config} \<and>
   (\<exists>p src.
      p \<in> set (filter (\<lambda>f. endswith f ''.jpg'')
                 (listdir [(''BugLiteAI_Aphid_Img0001.jpg'', downloaded_a),
                           (''BugLiteAI_Aphid_Img0002.jpg'', Picture ''old2''),
                           (''BugLiteAI_Aphid_Img0003.jpg'', Picture ''old3'')])) \<and>
      is_augmentation_of src old2_twice \<and>
      p = ''BugLiteAI_Aphid_Img0002.jpg'' \<and> src = old2_once \<and>
      p \<in> img_name ''Aphid'' ` {length [1::nat] + 1..<3} \<and>
      map_of [(''BugLiteAI_Aphid_Img0001.jpg'', downloaded_a),
              (''BugLiteAI_Aphid_Img0002.jpg'', old2_once),
              (''BugLiteAI_Aphid_Img0003.jpg'', old2_twice)] p = Some src) \<and>
   top_up small_config ''Aphid'' 1 [(''BugLiteAI_Aphid_Img0001.jpg'', downloaded_a)] (\<lambda>k. 0) =
     Inr (2, [(''BugLiteAI_Aphid_Img0001.jpg'', downloaded_a),
              (''BugLiteAI_Aphid_Img0002.jpg'', augmented_once),
              (''BugLiteAI_Aphid_Img0003.jpg'', augmented_once)], \<lambda>k. 0) \<and>
   (3::nat) \<in> {1 + 1..MAX_IMAGES_PER_SPECIES small_config} \<and>
   (\<exists>p src.
      p \<in> set (filter (\<lambda>f. endswith f ''.jpg'') (listdir [(''BugLiteAI_Aphid_Img0001.jpg'', downloaded_a)])) \<and>
      is_augmentation_of src augmented_once \<and>
      p = ''BugLiteAI_Aphid_Img0001.jpg'' \<and> src = downloaded_a \<and>
      p \<notin> img_name ''Aphid'' ` {1 + 1..<3} \<and>
      map_of [(''BugLiteAI_Aphid_Img0001.jpg'', downloaded_a)] p = Some src)"
proof -
  let ?imgs = "[(''BugLiteAI_Aphid_Img0001.jpg'', downloaded_a),
                (''BugLiteAI_Aphid_Img0002.jpg'', Picture ''old2''),
                (''BugLiteAI_Aphid_Img0003.jpg'', Picture ''old3'')]"
  let ?imgs' = "[(''BugLiteAI_Aphid_Img0001.jpg'', downloaded_a),
                 (''BugLiteAI_Aphid_Img0002.jpg'', old2_once),
                 (''BugLiteAI_Aphid_Img0003.jpg'', old2_twice)]"
  have n: "img_name ''Aphid'' 1 = ''BugLiteAI_Aphid_Img0001.jpg''"
    "img_name ''Aphid'' 2 = ''BugLiteAI_Aphid_Img0002.jpg''"
    "img_name ''Aphid'' 3 = ''BugLiteAI_Aphid_Img0003.jpg''"
    using name_1 name_2 name_3 by (simp_all add: eval_nat_numeral)
  have range2: "{length [1::nat] + 1..<3} = {2::nat}" and range1: "{1 + 1..<3} = {2::nat}"
    by auto
  have k2: "(3::nat) \<in> {length [1::nat] + 1..MAX_IMAGES_PER_SPECIES small_config}"
    and k1: "(3::nat) \<in> {1 + 1..MAX_IMAGES_PER_SPECIES small_config}"
    by (simp_all add: small_config_def)
  have in2: "img_name ''Aphid'' 2 \<in> img_name ''Aphid'' ` {length [1::nat] + 1..<3}"
    "img_name ''Aphid'' 1 \<notin> img_name ''Aphid'' ` {length [1::nat] + 1..<3}"
    "img_name ''Aphid'' 3 \<notin> img_name ''Aphid'' ` {length [1::nat] + 1..<3}"
    "img_name ''Aphid'' 1 \<notin> img_name ''Aphid'' ` {1 + 1..<3}"
    unfolding range2 range1 by (simp_all add: img_name_eq_iff)
  have no: "\<not> is_augmentation_of downloaded_a old2_twice"
    "\<not> is_augmentation_of (Picture ''old3'') old2_twice"
    "is_augmentation_of old2_once old2_twice"
    "is_augmentation_of downloaded_a augmented_once"
    by (simp_all add: old2_twice_def old2_once_def downloaded_a_def augmented_once_def)
  from sources_from_the_listed_paths [OF second_top_up k2]
  have "\<exists>p\<in>set [img_name ''Aphid'' 1, img_name ''Aphid'' 2, img_name ''Aphid'' 3]. \<exists>src aug.
    map_of ?imgs' (img_name ''Aphid'' 3) = Some aug \<and> is_augmentation_of src aug \<and>
    (if p \<in> img_name ''Aphid'' ` {length [1::nat] + 1..<3} then map_of ?imgs' p else map_of ?imgs p) =
      Some src"
    unfolding second_pool .
  then obtain p src aug where p: "p \<in> set [img_name ''Aphid'' 1, img_name ''Aphid'' 2, img_name ''Aphid'' 3]"
    and aug: "map_of ?imgs' (img_name ''Aphid'' 3) = Some aug"
    and isaug: "is_augmentation_of src aug"
    and src: "(if p \<in> img_name ''Aphid'' ` {length [1::nat] + 1..<3} then map_of ?imgs' p else map_of ?imgs p) =
      Some src"
    by blast
  from aug have aug2: "aug = old2_twice"
    by (simp add: n name_1)
  from p have "p = img_name ''Aphid'' 1 \<or> p = img_name ''Aphid'' 2 \<or> p = img_name ''Aphid'' 3"
    by (simp del: One_nat_def)
  then have "p = img_name ''Aphid'' 2 \<and> src = old2_once"
  proof (elim disjE)
    assume "p = img_name ''Aphid'' 1"
    with src in2 have "src = downloaded_a"
      by (simp add: n name_1)
    with isaug aug2 no show ?thesis
      by simp
  next
    assume p2: "p = img_name ''Aphid'' 2"
    with src in2 have "src = old2_once"
      by (simp add: n name_1)
    with p2 show ?thesis
      by simp
  next
    assume "p = img_name ''Aphid'' 3"
    with src in2 have "src = Picture ''old3''"
      by (simp add: n name_1)
    with isaug aug2 no show ?thesis
      by simp
  qed
  then have second: "\<exists>p src.
      p \<in> set (filter (\<lambda>f. endswith f ''.jpg'') (listdir ?imgs)) \<and>
      is_augmentation_of src old2_twice \<and>
      p = ''BugLiteAI_Aphid_Img0002.jpg'' \<and> src = old2_once \<and>
      p \<in> img_name ''Aphid'' ` {length [1::nat] + 1..<3} \<and>
      map_of ?imgs' p = Some src"
    using in2(1) no(3) unfolding second_pool by (simp add: n name_1)
  have pool: "filter (\<lambda>f. endswith f ''.jpg'') (listdir [(''BugLiteAI_Aphid_Img0001.jpg'', downloaded_a)]) =
     [''BugLiteAI_Aphid_Img0001.jpg'']"
    by (simp add: listdir_def endswith_def)
  have clean: "\<exists>p src.
      p \<in> set (filter (\<lambda>f. endswith f ''.jpg'') (listdir [(''BugLiteAI_Aphid_Img0001.jpg'', downloaded_a)])) \<and>
      is_augmentation_of src augmented_once \<and>
      p = ''BugLiteAI_Aphid_Img0001.jpg'' \<and> src = downloaded_a \<and>
      p \<notin> img_name ''Aphid'' ` {1 + 1..<3} \<and>
      map_of [(''BugLiteAI_Aphid_Img0001.jpg'', downloaded_a)] p = Some src"
    using in2(4) no(4) unfolding pool by (simp add: n name_1)
  show ?thesis
    using second_top_up k2 second clean_top_up k1 clean by blast
qed

section \<open>A category without any download\<close>

text \<open>
  Claim C5 says that a category whose processing fails never stops the run. With the
  script's constants, a first category whose only candidate gets no answer has no image
  to sample: \<open>random.choice\<close> raises IndexError on the empty pool, nothing catches it,
  and \<open>main\<close> ends with that error before the second category is looked at.
\<close>

theorem starved_category_stops_the_run:
  "\<exists>w'. main source_config dead_env starved_world = Inl (IndexError, w') \<and>
     console w' =
       [Starting, Processing ''Aphid'', Downloading 1 ''Aphid'', Downloaded 0 ''Aphid'', Augmenting ''Aphid''] \<and>
     Processing ''Beetle'' \<notin> set (console w')"
proof -
  define w0 where "w0 = log Starting starved_world"
  let ?csv = "(''urls.csv'', [''image_url'', ''http://a''])"
  have files: "csv_files (species_at w0 ''Aphid'') = [?csv]"
    by (simp add: w0_def csv_files_def species_at_def starved_world_def log_def endswith_def)
  have csvs: "csv_files (species_at w0 ''Aphid'') \<noteq> []"
    by (simp add: files)
  have read: "read_all dead_env (csv_files (species_at w0 ''Aphid'')) = Inr (urls_frame [''http://a''])"
    unfolding files by (rule read_one) (simp_all add: dead_env_def example_parse_def)
  note col = urls_frame_column [of "[''http://a'']"]
  have cand: "candidate_urls source_config (rng w0) (urls_frame [''http://a'']) = ([Text ''http://a''], rng w0)"
    by (simp add: one_candidate source_config_def)
  have fetch: "fetch_all source_config dead_env ''Aphid'' [Text ''http://a''] (sched w0)
      \<lparr>dir = safe_mkdir (images_at w0 ''Aphid''), requests = sent w0\<rparr> =
      Inr ([], \<lparr>dir = [], requests = [Text ''http://a'']\<rparr>)"
    by (simp add: fetch_all_def source_config_def executor.simps download_image_def fetch_def dead_env_def
        as_completed_def w0_def log_def starved_world_def images_at_def species_at_def safe_mkdir_def)
  have less: "length ([]::nat list) < MAX_IMAGES_PER_SPECIES source_config"
    by (simp add: source_config_def)
  have top: "top_up source_config ''Aphid'' (length ([]::nat list))
      (dir \<lparr>dir = [], requests = [Text ''http://a'']\<rparr>) (rng w0) = Inl (IndexError, [], rng w0)"
    by (simp add: top_up_def listdir_def augment_loop_fails source_config_def)
  from process_species_starved [OF csvs read col cand fetch less top]
  obtain w' where run: "process_species source_config dead_env ''Aphid'' w0 = Inl (IndexError, w')"
    and out: "console w' = console w0 @
      [Processing ''Aphid'', Downloading (length [Text ''http://a'']) ''Aphid'',
       Downloaded (length ([]::nat list)) ''Aphid'', Augmenting ''Aphid'']"
    by blast
  have "listdir (root w0) = [''Aphid'', ''Beetle'']"
    by (simp add: w0_def log_def starved_world_def listdir_def)
  then have "main source_config dead_env starved_world = Inl (IndexError, w')"
    using run by (simp add: main_def Let_def w0_def [symmetric])
  moreover have "console w' =
       [Starting, Processing ''Aphid'', Downloading 1 ''Aphid'', Downloaded 0 ''Aphid'', Augmenting ''Aphid'']"
    using out by (simp add: w0_def log_def starved_world_def)
  ultimately show ?thesis
    by simp
qed

end
